theory Spec2Isabelle
  imports Main "HOL-Library.AList" "HOL-Library.Multiset" "HOL-Library.Sublist"
begin

section \<open>Data model\<close>

text \<open>
  Opaque payloads (\<open>any\<close> in the source) are values of a small JSON-like type.
  A JavaScript \<open>Error\<close> is its message. Optional strings (\<open>string | null | undefined\<close>)
  are \<open>string option\<close>; the source tests them by truthiness, so the empty string counts
  as absent (\<open>truthy\<close>).
\<close>

datatype JSValue =
    JUndefined
  | JNull
  | JNum int
  | JStr string
  | JObj "(string \<times> JSValue) list"

datatype Error = Error string

fun message :: "Error \<Rightarrow> string" where
  "message (Error m) = m"

record Port =
  name :: string

record NodeData =
  outputs :: "Port list option"
  inputs :: "Port list option"
  payload :: JSValue

record Node =
  node_id :: string
  node_type :: "string option"
  node_data :: "NodeData option"

record Edge =
  edge_id :: string
  source :: string
  target :: string
  sourceHandle :: "string option"
  targetHandle :: "string option"

definition truthy :: "string option \<Rightarrow> bool" where
  "truthy h = (case h of None \<Rightarrow> False | Some s \<Rightarrow> s \<noteq> [])"

text \<open>JavaScript \<open>h || d\<close> for an optional string \<open>h\<close> and a string \<open>d\<close>.\<close>

definition js_or :: "string option \<Rightarrow> string \<Rightarrow> string" where
  "js_or h d = (case h of None \<Rightarrow> d | Some s \<Rightarrow> if s = [] then d else s)"

section \<open>ExecutionContext\<close>

record NodeOutput =
  nodeId :: string
  data :: JSValue
  timestamp :: nat
  error :: "Error option"

record ExecutionProgress =
  currentNodeId :: string
  completed :: "string list"
  failed :: "string list"
  remaining :: "string list"
  totalNodes :: nat

text \<open>
  The private field \<open>outputs\<close> is a JavaScript \<open>Map\<close>: an association list in insertion
  order, where \<open>set\<close> on an existing key replaces the value in place (\<open>AList.update\<close>).
\<close>

record ExecutionContext =
  ctx_nodes :: "Node list"
  executionOrder :: "string list"
  ctx_outputs :: "(string \<times> NodeOutput) list"
  progress :: ExecutionProgress
  aborted :: bool

definition initialProgress :: "Node list \<Rightarrow> string list \<Rightarrow> ExecutionProgress" where
  "initialProgress ns ord =
     \<lparr> currentNodeId = [], completed = [], failed = [], remaining = ord,
       totalNodes = length ns \<rparr>"

definition newExecutionContext :: "Node list \<Rightarrow> string list \<Rightarrow> ExecutionContext" where
  "newExecutionContext ns ord =
     \<lparr> ctx_nodes = ns, executionOrder = ord, ctx_outputs = [],
       progress = initialProgress ns ord, aborted = False \<rparr>"

definition getNodeOutput :: "ExecutionContext \<Rightarrow> string \<Rightarrow> NodeOutput option" where
  "getNodeOutput ctx k = map_of (ctx_outputs ctx) k"

text \<open>
  \<open>setNodeOutput(nodeId, data, error?)\<close>; the clock reading \<open>Date.now()\<close> is the
  argument \<open>now\<close>. \<open>indexOf\<close> followed by \<open>splice(index, 1)\<close> removes the first occurrence.
\<close>

definition setNodeOutput ::
  "ExecutionContext \<Rightarrow> string \<Rightarrow> JSValue \<Rightarrow> Error option \<Rightarrow> nat \<Rightarrow> ExecutionContext" where
  "setNodeOutput ctx k d err now =
     (let out = \<lparr> nodeId = k, data = d, timestamp = now, error = err \<rparr>;
          p = progress ctx;
          p1 = (case err of
                  Some _ \<Rightarrow> p\<lparr> failed := failed p @ [k] \<rparr>
                | None \<Rightarrow> p\<lparr> completed := completed p @ [k] \<rparr>);
          p2 = p1\<lparr> remaining := remove1 k (remaining p1) \<rparr>
      in ctx\<lparr> ctx_outputs := AList.update k out (ctx_outputs ctx), progress := p2 \<rparr>)"

definition portKey :: "Edge \<Rightarrow> string" where
  "portKey e = js_or (targetHandle e) (js_or (sourceHandle e) (source e))"

definition inputStep ::
  "ExecutionContext \<Rightarrow> Edge \<Rightarrow> (string \<times> JSValue) list \<Rightarrow> (string \<times> JSValue) list" where
  "inputStep ctx e ins =
     (case map_of (ctx_outputs ctx) (source e) of
        None \<Rightarrow> ins
      | Some so \<Rightarrow>
          (case error so of
             None \<Rightarrow> AList.update (portKey e) (data so) ins
           | Some _ \<Rightarrow> ins))"

definition getNodeInputs ::
  "ExecutionContext \<Rightarrow> string \<Rightarrow> Edge list \<Rightarrow> (string \<times> JSValue) list" where
  "getNodeInputs ctx k es =
     fold (inputStep ctx) (filter (\<lambda>e. target e = k) es) []"

definition setCurrentNode :: "ExecutionContext \<Rightarrow> string \<Rightarrow> ExecutionContext" where
  "setCurrentNode ctx k = ctx\<lparr> progress := (progress ctx)\<lparr> currentNodeId := k \<rparr> \<rparr>"

definition getProgress :: "ExecutionContext \<Rightarrow> ExecutionProgress" where
  "getProgress ctx = progress ctx"

definition abort :: "ExecutionContext \<Rightarrow> ExecutionContext" where
  "abort ctx = ctx\<lparr> aborted := True \<rparr>"

definition isAborted :: "ExecutionContext \<Rightarrow> bool" where
  "isAborted ctx = aborted ctx"

definition getAllOutputs :: "ExecutionContext \<Rightarrow> (string \<times> NodeOutput) list" where
  "getAllOutputs ctx = ctx_outputs ctx"

definition clear :: "ExecutionContext \<Rightarrow> ExecutionContext" where
  "clear ctx =
     ctx\<lparr> ctx_outputs := [],
          progress := initialProgress (ctx_nodes ctx) (executionOrder ctx),
          aborted := False \<rparr>"

text \<open>
  A sequence of \<open>setNodeOutput\<close> calls: each call is the node id, the data, the optional
  error and the clock reading.
\<close>

fun setNodeOutputs ::
  "ExecutionContext \<Rightarrow> (string \<times> JSValue \<times> Error option \<times> nat) list \<Rightarrow> ExecutionContext" where
  "setNodeOutputs ctx [] = ctx"
| "setNodeOutputs ctx ((k, d, err, now) # cs) = setNodeOutputs (setNodeOutput ctx k d err now) cs"

text \<open>
  The data of a source node as \<open>getNodeInputs\<close> may use it: recorded, and recorded
  without an error.
\<close>

definition okData :: "ExecutionContext \<Rightarrow> string \<Rightarrow> JSValue option" where
  "okData ctx k =
     (case getNodeOutput ctx k of
        None \<Rightarrow> None
      | Some so \<Rightarrow> (case error so of None \<Rightarrow> Some (data so) | Some _ \<Rightarrow> None))"

section \<open>GraphValidator\<close>

text \<open>
  \<open>Graph\<close>, \<open>Node\<close> and \<open>Edge\<close> of \<open>@types/core\<close> are not among the sources; the validator
  reads \<open>graph.id\<close>, \<open>graph.nodes\<close>, \<open>graph.edges\<close>, \<open>node.id\<close>, \<open>node.type\<close>,
  \<open>node.data?.outputs\<close>, \<open>node.data?.inputs\<close> and the edge fields, which is what the
  records carry. A \<open>ValidationError\<close> is its error code with the details object it is
  built with; its message is a constant of the code.
\<close>

record Graph =
  graph_id :: string
  nodes :: "Node list"
  edges :: "Edge list"

datatype ValidationError =
    GRAPH_EMPTY string
  | NODE_MISSING_ID Node
  | NODE_MISSING_TYPE string
  | NODE_DUPLICATE_ID string
  | EDGE_MISSING_SOURCE Edge
  | EDGE_MISSING_TARGET Edge
  | EDGE_SOURCE_NOT_FOUND string string
  | EDGE_TARGET_NOT_FOUND string string
  | EDGE_INVALID_SOURCE_PORT string "string option"
  | EDGE_INVALID_TARGET_PORT string "string option"
  | GRAPH_CYCLE_DETECTED "string list option"

datatype Warning =
    DisconnectedNodes "string list"
  | NoSourceNodes

record ValidationResult =
  valid :: bool
  errors :: "ValidationError list"
  warnings :: "Warning list"

fun errorMessage :: "ValidationError \<Rightarrow> string" where
  "errorMessage (GRAPH_EMPTY _) = ''Graph is empty''"
| "errorMessage (NODE_MISSING_ID _) = ''Node missing ID''"
| "errorMessage (NODE_MISSING_TYPE _) = ''Node missing type''"
| "errorMessage (NODE_DUPLICATE_ID _) = ''Duplicate node ID''"
| "errorMessage (EDGE_MISSING_SOURCE _) = ''Edge missing source''"
| "errorMessage (EDGE_MISSING_TARGET _) = ''Edge missing target''"
| "errorMessage (EDGE_SOURCE_NOT_FOUND _ _) = ''Edge source node not found''"
| "errorMessage (EDGE_TARGET_NOT_FOUND _ _) = ''Edge target node not found''"
| "errorMessage (EDGE_INVALID_SOURCE_PORT _ _) = ''Invalid source port''"
| "errorMessage (EDGE_INVALID_TARGET_PORT _ _) = ''Invalid target port''"
| "errorMessage (GRAPH_CYCLE_DETECTED _) = ''Graph contains cycles''"

definition validateNodeConfig :: "Node \<Rightarrow> ValidationError list" where
  "validateNodeConfig n = []"

definition validateNode :: "Node \<Rightarrow> Graph \<Rightarrow> ValidationError list" where
  "validateNode n g =
     (if node_id n = [] then [NODE_MISSING_ID n] else [])
     @ (if \<not> truthy (node_type n) then [NODE_MISSING_TYPE (node_id n)] else [])
     @ (if length (filter (\<lambda>m. node_id m = node_id n) (nodes g)) > 1
        then [NODE_DUPLICATE_ID (node_id n)] else [])
     @ (case node_data n of None \<Rightarrow> [] | Some _ \<Rightarrow> validateNodeConfig n)"

text \<open>
  \<open>ports?.some(p => p.name === handle)\<close>: \<open>None\<close> is JavaScript's \<open>undefined\<close>, the value
  of the optional chain when \<open>data\<close> or the port list is absent.
\<close>

definition somePort :: "Port list option \<Rightarrow> string option \<Rightarrow> bool option" where
  "somePort ps h = (case ps of None \<Rightarrow> None | Some l \<Rightarrow> Some (list_ex (\<lambda>p. Some (name p) = h) l))"

definition hasOutputPort :: "Node \<Rightarrow> string option \<Rightarrow> bool option" where
  "hasOutputPort n h = (case node_data n of None \<Rightarrow> None | Some d \<Rightarrow> somePort (outputs d) h)"

definition hasInputPort :: "Node \<Rightarrow> string option \<Rightarrow> bool option" where
  "hasInputPort n h = (case node_data n of None \<Rightarrow> None | Some d \<Rightarrow> somePort (inputs d) h)"

definition validateEdge :: "Edge \<Rightarrow> Graph \<Rightarrow> ValidationError list" where
  "validateEdge e g =
     (let sourceNode = find (\<lambda>n. node_id n = source e) (nodes g);
          targetNode = find (\<lambda>n. node_id n = target e) (nodes g)
      in (if source e = [] then [EDGE_MISSING_SOURCE e] else [])
       @ (if target e = [] then [EDGE_MISSING_TARGET e] else [])
       @ (case sourceNode of None \<Rightarrow> [EDGE_SOURCE_NOT_FOUND (edge_id e) (source e)] | Some _ \<Rightarrow> [])
       @ (case targetNode of None \<Rightarrow> [EDGE_TARGET_NOT_FOUND (edge_id e) (target e)] | Some _ \<Rightarrow> [])
       @ (case sourceNode of
            None \<Rightarrow> []
          | Some sn \<Rightarrow>
              if truthy (sourceHandle e) \<and> hasOutputPort sn (sourceHandle e) \<noteq> Some True
              then [EDGE_INVALID_SOURCE_PORT (edge_id e) (sourceHandle e)] else [])
       @ (case targetNode of
            None \<Rightarrow> []
          | Some tn \<Rightarrow>
              if truthy (targetHandle e) \<and> hasInputPort tn (targetHandle e) \<noteq> Some True
              then [EDGE_INVALID_TARGET_PORT (edge_id e) (targetHandle e)] else []))"

subsection \<open>Cycle detection\<close>

text \<open>
  The closure \<open>dfs\<close> of \<open>detectCycles\<close> mutates \<open>visited\<close>, \<open>recursionStack\<close> and \<open>path\<close>;
  the state is passed explicitly and returned with the result. \<open>dfsEdges\<close> is the
  \<open>for\<close> loop over the outgoing edges.
\<close>

record DfsState =
  visited :: "string set"
  recursionStack :: "string set"
  path :: "string list"

function (domintros)
  dfs :: "Edge list \<Rightarrow> string \<Rightarrow> DfsState \<Rightarrow> bool \<times> DfsState"
and
  dfsEdges :: "Edge list \<Rightarrow> Edge list \<Rightarrow> DfsState \<Rightarrow> bool \<times> DfsState"
where
  "dfs es k s =
     (let s1 = s\<lparr> visited := insert k (visited s),
                  recursionStack := insert k (recursionStack s),
                  path := path s @ [k] \<rparr>
      in case dfsEdges es (filter (\<lambda>e. source e = k) es) s1 of
           (True, s2) \<Rightarrow> (True, s2)
         | (False, s2) \<Rightarrow>
             (False, s2\<lparr> recursionStack := recursionStack s2 - {k},
                        path := butlast (path s2) \<rparr>))"
| "dfsEdges es [] s = (False, s)"
| "dfsEdges es (e # rest) s =
     (if target e \<notin> visited s then
        (case dfs es (target e) s of
           (True, s') \<Rightarrow> (True, s')
         | (False, s') \<Rightarrow> dfsEdges es rest s')
      else if target e \<in> recursionStack s then
        (True, s\<lparr> path := path s @ [target e] \<rparr>)
      else dfsEdges es rest s)"
  by pat_completeness auto

text \<open>
  Termination: every recursive call of \<open>dfs\<close> is on an unvisited target, and \<open>visited\<close>
  only grows.
\<close>

lemma dfs_visited_dom:
  "dfs_dfsEdges_dom (Inl (es, k, s)) \<Longrightarrow> visited s \<subseteq> visited (snd (dfs es k s))"
  "dfs_dfsEdges_dom (Inr (es, out, s)) \<Longrightarrow> visited s \<subseteq> visited (snd (dfsEdges es out s))"
proof (induction es k s and es out s rule: dfs_dfsEdges.pinduct)
  case (1 es k s)
  then show ?case
    by (auto simp: dfs.psimps Let_def split: prod.splits bool.splits)
next
  case (2 es s)
  then show ?case by (simp add: dfsEdges.psimps)
next
  case (3 es e rest s)
  show ?case
  proof (cases "target e \<notin> visited s")
    case True
    obtain b s' where r: "dfs es (target e) s = (b, s')" by (cases "dfs es (target e) s")
    have m: "visited s \<subseteq> visited s'" using "3.IH"(1)[OF True] r by simp
    show ?thesis
    proof (cases b)
      case True
      with r m \<open>target e \<notin> visited s\<close> show ?thesis
        by (simp add: dfsEdges.psimps(2)[OF "3.hyps"])
    next
      case False
      have "b = False" using False by simp
      then have "visited s' \<subseteq> visited (snd (dfsEdges es rest s'))"
        using "3.IH"(2)[OF True r[symmetric]] by simp
      with r m False \<open>target e \<notin> visited s\<close> show ?thesis
        by (simp add: dfsEdges.psimps(2)[OF "3.hyps"])
    qed
  next
    case False
    then show ?thesis
      using "3.IH"(3) by (simp add: dfsEdges.psimps(2)[OF "3.hyps"])
  qed
qed

definition dfsVertices :: "Edge list \<Rightarrow> Edge list \<Rightarrow> string set" where
  "dfsVertices es out = target ` set es \<union> target ` set out"

definition dfsMeasure ::
  "Edge list \<times> string \<times> DfsState + Edge list \<times> Edge list \<times> DfsState \<Rightarrow> nat \<times> nat" where
  "dfsMeasure x =
     (case x of
        Inl (es, k, s) \<Rightarrow> (card (dfsVertices es [] - insert k (visited s)), Suc (length es))
      | Inr (es, out, s) \<Rightarrow> (card (dfsVertices es out - visited s), length out))"

termination dfs
proof (relation "inv_image (less_than <*lex*> less_than) dfsMeasure")
  show "wf (inv_image (less_than <*lex*> less_than) dfsMeasure)"
    by (intro wf_inv_image wf_lex_prod wf_less_than)
next
  fix es :: "Edge list" and k and s x :: DfsState
  assume "x = s\<lparr>visited := insert k (visited s),
                 recursionStack := insert k (recursionStack s), path := path s @ [k]\<rparr>"
  moreover have "dfsVertices es (filter (\<lambda>e. source e = k) es) = dfsVertices es []"
    by (auto simp: dfsVertices_def)
  moreover have "length (filter (\<lambda>e. source e = k) es) < Suc (length es)"
    by (simp add: le_imp_less_Suc)
  ultimately show "(Inr (es, filter (\<lambda>e. source e = k) es, x), Inl (es, k, s))
       \<in> inv_image (less_than <*lex*> less_than) dfsMeasure"
    by (simp add: dfsMeasure_def)
next
  fix es :: "Edge list" and e :: Edge and rest and s :: DfsState
  assume nv: "target e \<notin> visited s"
  have fin: "finite (dfsVertices es (e # rest))" by (simp add: dfsVertices_def)
  have "dfsVertices es [] - insert (target e) (visited s)
      \<subset> dfsVertices es (e # rest) - visited s"
    using nv by (auto simp: dfsVertices_def)
  then have "card (dfsVertices es [] - insert (target e) (visited s))
      < card (dfsVertices es (e # rest) - visited s)"
    using fin by (intro psubset_card_mono) auto
  then show "(Inl (es, target e, s), Inr (es, e # rest, s))
       \<in> inv_image (less_than <*lex*> less_than) dfsMeasure"
    by (simp add: dfsMeasure_def)
next
  fix es :: "Edge list" and e :: Edge and rest and s y :: DfsState and x
  assume nv: "target e \<notin> visited s" and r: "(x, y) = dfs es (target e) s"
    and dom: "dfs_dfsEdges_dom (Inl (es, target e, s))"
  have m: "visited s \<subseteq> visited y" using dfs_visited_dom(1)[OF dom] r[symmetric] by simp
  have fin: "finite (dfsVertices es (e # rest))" by (simp add: dfsVertices_def)
  have "dfsVertices es rest - visited y \<subseteq> dfsVertices es (e # rest) - visited s"
    using m by (auto simp: dfsVertices_def)
  then have "card (dfsVertices es rest - visited y) \<le> card (dfsVertices es (e # rest) - visited s)"
    using fin by (intro card_mono) auto
  then show "(Inr (es, rest, y), Inr (es, e # rest, s))
       \<in> inv_image (less_than <*lex*> less_than) dfsMeasure"
    by (auto simp: dfsMeasure_def)
next
  fix es :: "Edge list" and e :: Edge and rest and s :: DfsState
  have fin: "finite (dfsVertices es (e # rest))" by (simp add: dfsVertices_def)
  have "dfsVertices es rest - visited s \<subseteq> dfsVertices es (e # rest) - visited s"
    by (auto simp: dfsVertices_def)
  then have "card (dfsVertices es rest - visited s) \<le> card (dfsVertices es (e # rest) - visited s)"
    using fin by (intro card_mono) auto
  then show "(Inr (es, rest, s), Inr (es, e # rest, s))
       \<in> inv_image (less_than <*lex*> less_than) dfsMeasure"
    by (auto simp: dfsMeasure_def)
qed

declare dfs.simps [simp del]

record CycleResult =
  hasCycle :: bool
  cycle :: "string list option"

text \<open>The loop \<open>for (const node of graph.nodes)\<close> of \<open>detectCycles\<close>.\<close>

fun detectFrom :: "Edge list \<Rightarrow> Node list \<Rightarrow> DfsState \<Rightarrow> CycleResult" where
  "detectFrom es [] s = \<lparr> hasCycle = False, cycle = None \<rparr>"
| "detectFrom es (n # ns) s =
     (if node_id n \<notin> visited s then
        (case dfs es (node_id n) s of
           (True, s') \<Rightarrow> \<lparr> hasCycle = True, cycle = Some (path s') \<rparr>
         | (False, s') \<Rightarrow> detectFrom es ns s')
      else detectFrom es ns s)"

definition detectCycles :: "Graph \<Rightarrow> CycleResult" where
  "detectCycles g =
     detectFrom (edges g) (nodes g) \<lparr> visited = {}, recursionStack = {}, path = [] \<rparr>"

definition findDisconnectedNodes :: "Graph \<Rightarrow> Node list" where
  "findDisconnectedNodes g =
     filter (\<lambda>n. \<not> list_ex (\<lambda>e. target e = node_id n) (edges g)
               \<and> \<not> list_ex (\<lambda>e. source e = node_id n) (edges g)) (nodes g)"

definition validateGraph :: "Graph \<Rightarrow> ValidationResult" where
  "validateGraph g =
     (if nodes g = [] then
        \<lparr> valid = False, errors = [GRAPH_EMPTY (graph_id g)], warnings = [] \<rparr>
      else
        let nodeErrors = concat (map (\<lambda>n. validateNode n g) (nodes g));
            edgeErrors = concat (map (\<lambda>e. validateEdge e g) (edges g));
            cycleResult = detectCycles g;
            cycleErrors = (if hasCycle cycleResult
                           then [GRAPH_CYCLE_DETECTED (cycle cycleResult)] else []);
            errs = nodeErrors @ edgeErrors @ cycleErrors;
            disconnected = findDisconnectedNodes g;
            w1 = (if length disconnected > 0
                  then [DisconnectedNodes (map node_id disconnected)] else []);
            sourceNodes = filter (\<lambda>n. \<not> list_ex (\<lambda>e. target e = node_id n) (edges g)) (nodes g);
            w2 = (if length sourceNodes = 0 then [NoSourceNodes] else [])
        in \<lparr> valid = (length errs = 0), errors = errs, warnings = w1 @ w2 \<rparr>)"

definition canExecute :: "Graph \<Rightarrow> bool" where
  "canExecute g = valid (validateGraph g)"

section \<open>TopologicalSort\<close>

text \<open>
  Kahn's algorithm as \<open>TopologicalSort.sort\<close> writes it. \<open>inDegree\<close> is a JavaScript
  \<open>Map\<close> whose iteration order seeds the queue, so it is an association list in
  insertion order; \<open>nodeMap\<close> and \<open>adjacencyList\<close> are only looked up, so they are maps.
  \<open>inDegree.get(k) || 0\<close> is \<open>degreeOf\<close>. The body of \<open>neighbors.forEach\<close> is \<open>relax\<close>.
\<close>

record SortedNode =
  node :: Node
  level :: nat

definition degreeOf :: "(string \<times> int) list \<Rightarrow> string \<Rightarrow> int" where
  "degreeOf inDegree k = (case map_of inDegree k of None \<Rightarrow> 0 | Some d \<Rightarrow> d)"

definition relax ::
  "nat \<Rightarrow> string \<Rightarrow> (string \<times> int) list \<times> (string \<times> nat) list
     \<Rightarrow> (string \<times> int) list \<times> (string \<times> nat) list" where
  "relax lvl neighborId st =
     (case st of (inDegree, queue) \<Rightarrow>
        let newInDegree = degreeOf inDegree neighborId - 1;
            inDegree' = AList.update neighborId newInDegree inDegree
        in (inDegree', if newInDegree = 0 then queue @ [(neighborId, lvl + 1)] else queue))"

definition degreeWeight :: "(string \<times> int) list \<Rightarrow> nat" where
  "degreeWeight inDegree = sum_list (map (\<lambda>p. nat (snd p)) inDegree)"

definition kahnMeasure :: "(string \<times> int) list \<times> (string \<times> nat) list \<Rightarrow> nat" where
  "kahnMeasure st = degreeWeight (fst st) + length (snd st)"

lemma degreeWeight_update:
  "degreeWeight (AList.update k v al) + nat (degreeOf al k) = degreeWeight al + nat v"
  by (induction al) (auto simp: degreeWeight_def degreeOf_def)

lemma kahnMeasure_relax: "kahnMeasure (relax lvl k st) \<le> kahnMeasure st"
proof -
  obtain d q where st: "st = (d, q)" by (cases st)
  show ?thesis
    using degreeWeight_update[of k "degreeOf d k - 1" d]
    by (auto simp: st relax_def kahnMeasure_def Let_def)
qed

lemma kahnMeasure_fold_relax: "kahnMeasure (fold (relax lvl) ks st) \<le> kahnMeasure st"
proof (induction ks arbitrary: st)
  case Nil
  show ?case by simp
next
  case (Cons k ks)
  have "kahnMeasure (fold (relax lvl) ks (relax lvl k st)) \<le> kahnMeasure (relax lvl k st)"
    by (rule Cons.IH)
  also have "\<dots> \<le> kahnMeasure st" by (rule kahnMeasure_relax)
  finally show ?case by simp
qed

text \<open>
  The \<open>while (queue.length > 0)\<close> loop. It terminates on every input: an in-degree only
  decreases, and an id is pushed only when its in-degree steps from 1 to 0.
\<close>

function kahn ::
  "(string \<rightharpoonup> Node) \<Rightarrow> (string \<rightharpoonup> string list) \<Rightarrow> (string \<times> int) list
     \<Rightarrow> (string \<times> nat) list \<Rightarrow> SortedNode list \<Rightarrow> SortedNode list" where
  "kahn nodeMap adjacencyList inDegree [] result = result"
| "kahn nodeMap adjacencyList inDegree ((currentId, lvl) # queue) result =
     (let result' = (case nodeMap currentId of
                       None \<Rightarrow> result
                     | Some currentNode \<Rightarrow> result @ [\<lparr> node = currentNode, level = lvl \<rparr>]);
          neighbors = (case adjacencyList currentId of None \<Rightarrow> [] | Some ts \<Rightarrow> ts);
          st = fold (relax lvl) neighbors (inDegree, queue)
      in kahn nodeMap adjacencyList (fst st) (snd st) result')"
  by pat_completeness auto
termination
proof (relation "measure (\<lambda>(nodeMap, adjacencyList, inDegree, queue, result).
                   kahnMeasure (inDegree, queue))")
  show "wf (measure (\<lambda>(nodeMap, adjacencyList, inDegree, queue, result).
                   kahnMeasure (inDegree, queue)))" by simp
next
  fix nodeMap :: "string \<rightharpoonup> Node" and adjacencyList :: "string \<rightharpoonup> string list"
    and inDegree :: "(string \<times> int) list" and currentId lvl
    and queue :: "(string \<times> nat) list" and result x xa xb
  assume "xb = fold (relax lvl) xa (inDegree, queue)"
  moreover have "kahnMeasure (fold (relax lvl) xa (inDegree, queue)) \<le> kahnMeasure (inDegree, queue)"
    by (rule kahnMeasure_fold_relax)
  ultimately show "((nodeMap, adjacencyList, fst xb, snd xb, x),
        (nodeMap, adjacencyList, inDegree, (currentId, lvl) # queue, result))
       \<in> measure (\<lambda>(nodeMap, adjacencyList, inDegree, queue, result).
                   kahnMeasure (inDegree, queue))"
    by (simp add: kahnMeasure_def)
qed

declare kahn.simps [simp del]

definition buildNodeMap :: "Node list \<Rightarrow> (string \<rightharpoonup> Node)" where
  "buildNodeMap ns = fold (\<lambda>n m. m(node_id n \<mapsto> n)) ns Map.empty"

definition initAdjacency :: "Node list \<Rightarrow> (string \<rightharpoonup> string list)" where
  "initAdjacency ns = fold (\<lambda>n m. m(node_id n \<mapsto> [])) ns Map.empty"

definition initInDegree :: "Node list \<Rightarrow> (string \<times> int) list" where
  "initInDegree ns = fold (\<lambda>n d. AList.update (node_id n) 0 d) ns []"

definition addAdjacency :: "Edge \<Rightarrow> (string \<rightharpoonup> string list) \<Rightarrow> (string \<rightharpoonup> string list)" where
  "addAdjacency e adj =
     (case adj (source e) of None \<Rightarrow> adj | Some ts \<Rightarrow> adj(source e \<mapsto> ts @ [target e]))"

definition addInDegree :: "Edge \<Rightarrow> (string \<times> int) list \<Rightarrow> (string \<times> int) list" where
  "addInDegree e d = AList.update (target e) (degreeOf d (target e) + 1) d"

definition topologicalSort :: "Node list \<Rightarrow> Edge list \<Rightarrow> SortedNode list" where
  "topologicalSort ns es =
     (let nodeMap = buildNodeMap ns;
          adjacencyList = fold addAdjacency es (initAdjacency ns);
          inDegree = fold addInDegree es (initInDegree ns);
          queue = map (\<lambda>p. (fst p, 0)) (filter (\<lambda>p. snd p = 0) inDegree)
      in kahn nodeMap adjacencyList inDegree queue [])"

definition getExecutionOrder :: "SortedNode list \<Rightarrow> string list" where
  "getExecutionOrder sortedNodes = map (\<lambda>sn. node_id (node sn)) sortedNodes"

section \<open>GraphExecutor\<close>

text \<open>
  \<open>execute\<close> is asynchronous and reports through optional callbacks. The model returns the
  executor after the call, the settled promise (\<open>Inl\<close> the rejection, \<open>Inr\<close> the outputs
  map) and the sequence of callback invocations in the order they are made; callbacks
  themselves are taken not to throw.

  The environment of a pass:
  \<^item> \<open>validate\<close>: \<open>GraphValidator.validate(nodes, edges)\<close>, which is not among the sources
    (the class has \<open>validateGraph(graph)\<close>), is a parameter;
  \<^item> \<open>getHandlerForNode\<close>: the handler registry, an external collaborator; a handler
    returns the \<open>data\<close> of its result or throws;
  \<^item> \<open>dispatchTime\<close>, \<open>recordTime\<close>: the readings of \<open>Date.now()\<close> in \<open>executeNode\<close> and
    in \<open>setNodeOutput\<close> for a node;
  \<^item> \<open>abortDuring k\<close>: whether \<open>abort()\<close> is called on the executor while node \<open>k\<close> is
    being processed, that is between the \<open>isAborted()\<close> check of its iteration and
    the next check (during the awaited handler, or from a callback).
\<close>

type_synonym Inputs = "(string \<times> JSValue) list"

datatype Thrown = ThrownError Error | ThrownOther

type_synonym Handler = "Node \<Rightarrow> Inputs \<Rightarrow> Thrown + JSValue"

record Env =
  validate :: "Node list \<Rightarrow> Edge list \<Rightarrow> ValidationResult"
  getHandlerForNode :: "Node \<Rightarrow> Handler option"
  dispatchTime :: "string \<Rightarrow> nat"
  recordTime :: "string \<Rightarrow> nat"
  abortDuring :: "string \<Rightarrow> bool"

datatype Event =
    OnProgress ExecutionProgress
  | OnNodeExecute string
  | OnNodeComplete string JSValue
  | OnNodeError string Error
  | OnComplete "(string \<times> JSValue) list"
  | OnError Error

record GraphExecutor =
  exec_context :: "ExecutionContext option"
  isExecuting :: bool

definition typeString :: "string option \<Rightarrow> string" where
  "typeString t = (case t of None \<Rightarrow> ''undefined'' | Some x \<Rightarrow> x)"

definition nodeDataValue :: "Node \<Rightarrow> JSValue" where
  "nodeDataValue n = (case node_data n of None \<Rightarrow> JUndefined | Some d \<Rightarrow> payload d)"

definition executeNode :: "Env \<Rightarrow> Node \<Rightarrow> Inputs \<Rightarrow> Error + JSValue" where
  "executeNode env n ins =
     (case getHandlerForNode env n of
        Some handler \<Rightarrow>
          (case handler n ins of
             Inr d \<Rightarrow> Inr d
           | Inl th \<Rightarrow>
               Inl (Error (''Handler execution failed for node type '' @ [CHR 0x22]
                           @ typeString (node_type n) @ [CHR 0x22] @ '': ''
                           @ (case th of ThrownError e \<Rightarrow> message e
                                       | ThrownOther \<Rightarrow> ''Unknown error''))))
      | None \<Rightarrow>
          Inr (JObj [(''nodeId'', JStr (node_id n)),
                     (''type'', JStr (js_or (node_type n) ''unknown'')),
                     (''inputs'', JObj ins),
                     (''data'', nodeDataValue n),
                     (''timestamp'', JNum (int (dispatchTime env (node_id n)))),
                     (''warning'', JStr ''No handler registered for this node type'')]))"

fun runNodes ::
  "Env \<Rightarrow> Node list \<Rightarrow> Edge list \<Rightarrow> ExecutionContext \<Rightarrow> string list
     \<Rightarrow> ExecutionContext \<times> Event list \<times> Error option" where
  "runNodes env ns es ctx [] = (ctx, [], None)"
| "runNodes env ns es ctx (k # ks) =
     (if isAborted ctx then (ctx, [], None)
      else
        (case find (\<lambda>n. node_id n = k) ns of
           None \<Rightarrow> runNodes env ns es ctx ks
         | Some n \<Rightarrow>
             (let ctx1 = setCurrentNode ctx k;
                  ins = getNodeInputs ctx1 k es;
                  r = executeNode env n ins;
                  ctx2 = (if abortDuring env k then abort ctx1 else ctx1)
              in case r of
                   Inr out \<Rightarrow>
                     (let ctx3 = setNodeOutput ctx2 k out None (recordTime env k)
                      in case runNodes env ns es ctx3 ks of
                           (ctx', evs, res) \<Rightarrow>
                             (ctx',
                              [OnNodeExecute k, OnNodeComplete k out, OnProgress (getProgress ctx3)]
                                @ evs,
                              res))
                 | Inl err \<Rightarrow>
                     (setNodeOutput ctx2 k JNull (Some err) (recordTime env k),
                      [OnNodeExecute k, OnNodeError k err],
                      Some err))))"

definition collectOutputs :: "(string \<times> NodeOutput) list \<Rightarrow> (string \<times> JSValue) list" where
  "collectOutputs outs =
     fold (\<lambda>p m. case error (snd p) of None \<Rightarrow> AList.update (fst p) (data (snd p)) m
                                       | Some _ \<Rightarrow> m) outs []"

definition joinWith :: "string \<Rightarrow> string list \<Rightarrow> string" where
  "joinWith sep xs = (case xs of [] \<Rightarrow> [] | x # rest \<Rightarrow> fold (\<lambda>y acc. acc @ sep @ y) rest x)"

definition errorToString :: "ValidationError \<Rightarrow> string" where
  "errorToString e = ''ValidationError: '' @ errorMessage e"

definition validationFailure :: "ValidationError list \<Rightarrow> Error" where
  "validationFailure errs =
     Error (''Graph validation failed: '' @ joinWith '', '' (map errorToString errs))"

text \<open>
  The callbacks that matter for ordering: the ids passed to \<open>onNodeExecute\<close>, in order.
\<close>

fun executedNodes :: "Event list \<Rightarrow> string list" where
  "executedNodes [] = []"
| "executedNodes (OnNodeExecute k # evs) = k # executedNodes evs"
| "executedNodes (_ # evs) = executedNodes evs"



definition execute ::
  "Env \<Rightarrow> GraphExecutor \<Rightarrow> Node list \<Rightarrow> Edge list
     \<Rightarrow> GraphExecutor \<times> (Error + (string \<times> JSValue) list) \<times> Event list" where
  "execute env ex ns es =
     (if isExecuting ex then
        (ex, Inl (Error ''Graph execution already in progress''), [])
      else
        (let validation = validate env ns es in
         if \<not> valid validation then
           (let err = validationFailure (errors validation)
            in (ex\<lparr> isExecuting := False \<rparr>, Inl err, [OnError err, OnError err]))
         else
           (let sortedNodes = topologicalSort ns es;
                ord = getExecutionOrder sortedNodes;
                ctx0 = newExecutionContext ns ord
            in case runNodes env ns es ctx0 ord of
                 (ctx, evs, Some err) \<Rightarrow>
                   (\<lparr> exec_context = Some ctx, isExecuting = False \<rparr>, Inl err, evs @ [OnError err])
               | (ctx, evs, None) \<Rightarrow>
                   (let outs = collectOutputs (getAllOutputs ctx)
                    in (\<lparr> exec_context = Some ctx, isExecuting = False \<rparr>, Inr outs,
                        evs @ [OnComplete outs])))))"

text \<open>
  Modelled from the spec: \<open>GraphValidator.validate(nodes, edges)\<close> is called by the executor
  but is not among the sources. The spec gives \<open>validate(nodes, edges)\<close> the checks that
  \<open>validateGraph\<close> makes on the graph of these nodes and edges.
\<close>

definition graphValidate :: "Node list \<Rightarrow> Edge list \<Rightarrow> ValidationResult" where
  "graphValidate ns es = validateGraph \<lparr> graph_id = [], nodes = ns, edges = es \<rparr>"

section \<open>ExecutionEngine\<close>





section \<open>Sample graphs\<close>

definition mkNode :: "string \<Rightarrow> Node" where
  "mkNode k = \<lparr> node_id = k, node_type = Some ''task'', node_data = None \<rparr>"

definition mkEdge :: "string \<Rightarrow> string \<Rightarrow> Edge" where
  "mkEdge a b =
     \<lparr> edge_id = a @ ''-'' @ b, source = a, target = b,
       sourceHandle = None, targetHandle = None \<rparr>"

definition idleExecutor :: GraphExecutor where
  "idleExecutor = \<lparr> exec_context = None, isExecuting = False \<rparr>"

text \<open>An environment whose only handler returns the data \<open>"x"\<close> for every node.\<close>

definition plainEnv :: Env where
  "plainEnv =
     \<lparr> validate = graphValidate,
       getHandlerForNode = (\<lambda>n. Some (\<lambda>n ins. Inr (JStr ''x''))),
       dispatchTime = (\<lambda>k. 0), recordTime = (\<lambda>k. 0), abortDuring = (\<lambda>k. False) \<rparr>"

text \<open>An environment whose only handler throws \<open>Error("boom")\<close> on every node.\<close>

definition boomEnv :: Env where
  "boomEnv = plainEnv\<lparr> getHandlerForNode := (\<lambda>n. Some (\<lambda>n ins. Inl (ThrownError (Error ''boom'')))) \<rparr>"

text \<open>An environment in which \<open>abort()\<close> is called while node \<open>A\<close> is processed.\<close>

definition abortEnv :: Env where
  "abortEnv = plainEnv\<lparr> abortDuring := (\<lambda>k. k = ''A'') \<rparr>"

text \<open>A graph whose cycle \<open>A \<rightarrow> B \<rightarrow> A\<close> is entered from \<open>S\<close>.\<close>

definition lassoGraph :: Graph where
  "lassoGraph =
     \<lparr> graph_id = ''g'',
       nodes = [mkNode ''S'', mkNode ''A'', mkNode ''B''],
       edges = [mkEdge ''S'' ''A'', mkEdge ''A'' ''B'', mkEdge ''B'' ''A''] \<rparr>"

text \<open>An edge with both handles between two nodes that declare no ports.\<close>

definition portEdge :: Edge where
  "portEdge = \<lparr> edge_id = ''e1'', source = ''A'', target = ''B'',
                 sourceHandle = Some ''out'', targetHandle = Some ''in'' \<rparr>"

definition portGraph :: Graph where
  "portGraph = \<lparr> graph_id = ''g'', nodes = [mkNode ''A'', mkNode ''B''], edges = [portEdge] \<rparr>"

section \<open>Notions used in the statements and proofs\<close>

text \<open>The node ids of a graph, and its edges as a relation on ids.\<close>

definition nodeIds :: "Node list \<Rightarrow> string set" where
  "nodeIds ns = node_id ` set ns"

definition edgeRel :: "Edge list \<Rightarrow> (string \<times> string) set" where
  "edgeRel es = (\<lambda>e. (source e, target e)) ` set es"

text \<open>
  \<open>inEdges es D v\<close> counts the edges into \<open>v\<close> whose source is not in \<open>D\<close>;
  \<open>position xs x\<close> is the index of the first occurrence of \<open>x\<close> in \<open>xs\<close>.
\<close>

definition inEdges :: "Edge list \<Rightarrow> string set \<Rightarrow> string \<Rightarrow> nat" where
  "inEdges es D v = length (filter (\<lambda>e. target e = v \<and> source e \<notin> D) es)"

definition position :: "string list \<Rightarrow> string \<Rightarrow> nat" where
  "position xs x = length (takeWhile (\<lambda>y. y \<noteq> x) xs)"

definition resultIds :: "SortedNode list \<Rightarrow> string list" where
  "resultIds r = map (\<lambda>sn. node_id (node sn)) r"

text \<open>
  The invariant of the \<open>while\<close> loop of \<open>TopologicalSort.sort\<close>, for a graph whose edge
  targets are node ids: emitted and queued ids are distinct node ids; every in-degree is
  the number of incoming edges from sources not yet emitted; the ids with in-degree 0 are
  the emitted and the queued ones; every edge into an emitted node comes from a node
  emitted earlier.
\<close>

definition kahnInv ::
  "Node list \<Rightarrow> Edge list \<Rightarrow> (string \<times> int) list \<Rightarrow> (string \<times> nat) list
     \<Rightarrow> SortedNode list \<Rightarrow> bool" where
  "kahnInv ns es d q r =
     (distinct (resultIds r @ map fst q)
      \<and> set (resultIds r) \<union> set (map fst q) \<subseteq> nodeIds ns
      \<and> (\<forall>v. degreeOf d v = int (inEdges es (set (resultIds r)) v))
      \<and> (\<forall>v \<in> nodeIds ns. (v \<in> set (resultIds r) \<union> set (map fst q)) = (degreeOf d v = 0))
      \<and> (\<forall>e \<in> set es. target e \<in> set (resultIds r) \<longrightarrow>
            source e \<in> set (resultIds r)
            \<and> position (resultIds r) (source e) < position (resultIds r) (target e))
      \<and> (\<forall>sn \<in> set r. node sn \<in> set ns))"




text \<open>The progress lists partition the execution order.\<close>

definition partitioned :: "ExecutionContext \<Rightarrow> bool" where
  "partitioned ctx =
     (distinct (completed (progress ctx) @ failed (progress ctx) @ remaining (progress ctx))
      \<and> mset (completed (progress ctx) @ failed (progress ctx) @ remaining (progress ctx))
          = mset (executionOrder ctx))"

section \<open>Resolving a node's inputs\<close>

lemma inputStep_map_of:
  "map_of (inputStep ctx e ins) =
     (case okData ctx (source e) of
        None \<Rightarrow> map_of ins
      | Some d \<Rightarrow> (map_of ins)(portKey e \<mapsto> d))"
  by (simp add: inputStep_def okData_def getNodeOutput_def update_conv'
      split: option.splits)

lemma fold_inputStep_map_of:
  "map_of (fold (inputStep ctx) es ins) k =
     (case rev (filter (\<lambda>e. portKey e = k \<and> okData ctx (source e) \<noteq> None) es) of
        [] \<Rightarrow> map_of ins k
      | e # _ \<Rightarrow> okData ctx (source e))"
proof (induction es arbitrary: ins)
  case Nil
  show ?case by simp
next
  case (Cons e es)
  show ?case
    by (cases "okData ctx (source e)")
       (auto simp: Cons.IH inputStep_map_of split: list.splits)
qed

text \<open>
  C7. \<open>getNodeInputs nodeId edges\<close> has an entry under a key exactly when some edge into
  \<open>nodeId\<close> resolves to that key and its source has a recorded output without an error;
  the entry then carries the data of the last such edge (a failed or unrecorded source
  contributes nothing, so its port is missing rather than null). The key of an edge is its
  \<open>targetHandle\<close> when that is a non-empty string, else its \<open>sourceHandle\<close> when that is a
  non-empty string, else the source node id.
\<close>

theorem getNodeInputs_entries:
  "map_of (getNodeInputs ctx k es) key =
     (case rev (filter (\<lambda>e. target e = k \<and> portKey e = key \<and> okData ctx (source e) \<noteq> None) es) of
        [] \<Rightarrow> None
      | e # _ \<Rightarrow> okData ctx (source e))
   \<and> portKey e =
     (if truthy (targetHandle e) then the (targetHandle e)
      else if truthy (sourceHandle e) then the (sourceHandle e)
      else source e)"
proof
  have "filter (\<lambda>e. portKey e = key \<and> okData ctx (source e) \<noteq> None) (filter (\<lambda>e. target e = k) es)
      = filter (\<lambda>e. target e = k \<and> portKey e = key \<and> okData ctx (source e) \<noteq> None) es"
    by (simp add: conj_commute conj_left_commute)
  then show "map_of (getNodeInputs ctx k es) key =
     (case rev (filter (\<lambda>e. target e = k \<and> portKey e = key \<and> okData ctx (source e) \<noteq> None) es) of
        [] \<Rightarrow> None
      | e # _ \<Rightarrow> okData ctx (source e))"
    by (simp add: getNodeInputs_def fold_inputStep_map_of split: list.splits)
next
  show "portKey e =
     (if truthy (targetHandle e) then the (targetHandle e)
      else if truthy (sourceHandle e) then the (sourceHandle e)
      else source e)"
    by (simp add: portKey_def js_or_def truthy_def split: option.splits)
qed

section \<open>Progress bookkeeping\<close>

lemma setNodeOutput_fields:
  "ctx_nodes (setNodeOutput ctx k d err now) = ctx_nodes ctx"
  "executionOrder (setNodeOutput ctx k d err now) = executionOrder ctx"
  "aborted (setNodeOutput ctx k d err now) = aborted ctx"
  "totalNodes (progress (setNodeOutput ctx k d err now)) = totalNodes (progress ctx)"
  "remaining (progress (setNodeOutput ctx k d err now)) = remove1 k (remaining (progress ctx))"
  "completed (progress (setNodeOutput ctx k d err now)) =
     (if err = None then completed (progress ctx) @ [k] else completed (progress ctx))"
  "failed (progress (setNodeOutput ctx k d err now)) =
     (if err = None then failed (progress ctx) else failed (progress ctx) @ [k])"
  by (simp_all add: setNodeOutput_def Let_def split: option.splits)

lemma partitioned_setNodeOutput:
  assumes "partitioned ctx" and "k \<in> set (remaining (progress ctx))"
  shows "partitioned (setNodeOutput ctx k d err now)"
  using assms
  by (auto simp: partitioned_def setNodeOutput_fields)

lemma partitioned_setNodeOutputs:
  assumes "partitioned ctx" and "distinct (map fst cs)"
    and "fst ` set cs \<subseteq> set (remaining (progress ctx))"
  shows "partitioned (setNodeOutputs ctx cs)"
  using assms
proof (induction cs arbitrary: ctx)
  case Nil
  then show ?case by simp
next
  case (Cons c cs)
  obtain k d err now where c: "c = (k, d, err, now)" by (cases c) auto
  have k: "k \<in> set (remaining (progress ctx))" using Cons.prems(3) c by simp
  have p: "partitioned (setNodeOutput ctx k d err now)"
    using Cons.prems(1) k by (rule partitioned_setNodeOutput)
  have dr: "distinct (remaining (progress ctx))"
    using Cons.prems(1) by (simp add: partitioned_def)
  have "fst ` set cs \<subseteq> set (remaining (progress (setNodeOutput ctx k d err now)))"
    using Cons.prems(2,3) c dr by (auto simp: setNodeOutput_fields)
  with Cons.IH[OF p] Cons.prems(2) show ?case by (simp add: c)
qed

lemma setNodeOutputs_fields:
  "ctx_nodes (setNodeOutputs ctx cs) = ctx_nodes ctx"
  "executionOrder (setNodeOutputs ctx cs) = executionOrder ctx"
  "totalNodes (progress (setNodeOutputs ctx cs)) = totalNodes (progress ctx)"
  by (induction ctx cs rule: setNodeOutputs.induct) (simp_all add: setNodeOutput_fields)

text \<open>
  C10. Take a context constructed from a node list with unique ids and an execution order
  that lists exactly those ids, and apply any sequence of \<open>setNodeOutput\<close> calls that
  name pairwise distinct ids of the execution order. Then the \<open>completed\<close>, \<open>failed\<close> and
  \<open>remaining\<close> lists of \<open>getProgress()\<close> are pairwise disjoint and their lengths sum to
  \<open>totalNodes\<close>, and \<open>clear()\<close> gives back the freshly constructed context: no outputs,
  empty \<open>completed\<close> and \<open>failed\<close>, \<open>remaining\<close> equal to the execution order, \<open>aborted\<close>
  false.
\<close>

theorem progress_partition:
  assumes "distinct (map node_id ns)"
    and "mset ord = mset (map node_id ns)"
    and "distinct (map fst cs)"
    and "fst ` set cs \<subseteq> set ord"
  shows "(let ctx = setNodeOutputs (newExecutionContext ns ord) cs; p = getProgress ctx in
            set (completed p) \<inter> set (failed p) = {}
          \<and> set (completed p) \<inter> set (remaining p) = {}
          \<and> set (failed p) \<inter> set (remaining p) = {}
          \<and> length (completed p) + length (failed p) + length (remaining p) = totalNodes p
          \<and> clear ctx = newExecutionContext ns ord)"
proof -
  let ?c0 = "newExecutionContext ns ord"
  let ?ctx = "setNodeOutputs ?c0 cs"
  have d: "distinct ord" using assms(1,2) by (metis distinct_map mset_eq_imp_distinct_iff distinct_map)
  have p0: "partitioned ?c0"
    using d by (simp add: partitioned_def newExecutionContext_def initialProgress_def)
  have r0: "fst ` set cs \<subseteq> set (remaining (progress ?c0))"
    using assms(4) by (simp add: newExecutionContext_def initialProgress_def)
  have p: "partitioned ?ctx" by (rule partitioned_setNodeOutputs[OF p0 assms(3) r0])
  have len: "length (completed (progress ?ctx)) + length (failed (progress ?ctx))
         + length (remaining (progress ?ctx)) = length ord"
  proof -
    have "size (mset (completed (progress ?ctx) @ failed (progress ?ctx) @ remaining (progress ?ctx)))
        = size (mset ord)"
      using p by (simp add: partitioned_def setNodeOutputs_fields newExecutionContext_def)
    then show ?thesis by simp
  qed
  have lo: "length ord = length ns" using assms(2) by (metis length_map size_mset)
  have tn: "totalNodes (progress ?ctx) = length ns"
    by (simp add: setNodeOutputs_fields newExecutionContext_def initialProgress_def)
  have cl: "clear ?ctx = ?c0"
    by (simp add: clear_def setNodeOutputs_fields newExecutionContext_def)
  from p show ?thesis
    unfolding Let_def getProgress_def
    using len lo tn cl by (auto simp: partitioned_def)
qed

theorem progress_partition_witness:
  "(let ctx = setNodeOutputs (newExecutionContext [mkNode ''A'', mkNode ''B''] [''B'', ''A''])
                [(''A'', JStr ''x'', None, 1), (''B'', JNull, Some (Error ''boom''), 2)];
        p = getProgress ctx in
      set (completed p) \<inter> set (failed p) = {}
    \<and> set (completed p) \<inter> set (remaining p) = {}
    \<and> set (failed p) \<inter> set (remaining p) = {}
    \<and> length (completed p) + length (failed p) + length (remaining p) = totalNodes p
    \<and> clear ctx = newExecutionContext [mkNode ''A'', mkNode ''B''] [''B'', ''A''])"
proof -
  have h1: "distinct (map node_id [mkNode ''A'', mkNode ''B''])" by (simp add: mkNode_def)
  have h2: "mset [''B'', ''A''] = mset (map node_id [mkNode ''A'', mkNode ''B''])"
    by (simp add: mkNode_def)
  have h3: "distinct (map fst [(''A'', JStr ''x'', None :: Error option, 1 :: nat),
                               (''B'', JNull, Some (Error ''boom''), 2)])" by simp
  have h4: "fst ` set [(''A'', JStr ''x'', None :: Error option, 1 :: nat),
                       (''B'', JNull, Some (Error ''boom''), 2)] \<subseteq> set [''B'', ''A'']" by simp
  show ?thesis by (rule progress_partition[OF h1 h2 h3 h4])
qed

section \<open>The execution loop\<close>

lemma executedNodes_append:
  "executedNodes (xs @ ys) = executedNodes xs @ executedNodes ys"
  by (induction xs rule: executedNodes.induct) simp_all

lemmas sample_defs =
  mkNode_def mkEdge_def idleExecutor_def plainEnv_def boomEnv_def abortEnv_def graphValidate_def

lemmas validator_defs =
  validateGraph_def validateNode_def validateNodeConfig_def validateEdge_def detectCycles_def
  dfs.simps findDisconnectedNodes_def truthy_def Let_def

lemmas sort_defs =
  getExecutionOrder_def topologicalSort_def buildNodeMap_def initAdjacency_def initInDegree_def
  addAdjacency_def addInDegree_def degreeOf_def relax_def kahn.simps

lemmas context_defs =
  newExecutionContext_def initialProgress_def setNodeOutput_def getNodeInputs_def inputStep_def
  getProgress_def setCurrentNode_def isAborted_def abort_def getAllOutputs_def getNodeOutput_def
  portKey_def js_or_def

lemmas executor_defs =
  execute_def executeNode_def collectOutputs_def joinWith_def errorToString_def typeString_def
  nodeDataValue_def validationFailure_def

lemma runNodes_aborted:
  "isAborted ctx \<Longrightarrow> runNodes env ns es ctx ks = (ctx, [], None)"
  by (cases ks) simp_all

lemma runNodes_append:
  "runNodes env ns es ctx (pre @ post) =
     (case runNodes env ns es ctx pre of
        (ctx1, evs1, Some err) \<Rightarrow> (ctx1, evs1, Some err)
      | (ctx1, evs1, None) \<Rightarrow>
          (case runNodes env ns es ctx1 post of
             (ctx2, evs2, res) \<Rightarrow> (ctx2, evs1 @ evs2, res)))"
proof (induction pre arbitrary: ctx)
  case Nil
  show ?case by (simp split: prod.splits)
next
  case (Cons k pre)
  show ?case
  proof (cases "isAborted ctx")
    case True
    then show ?thesis by (simp add: runNodes_aborted split: prod.splits)
  next
    case False
    then show ?thesis
      by (auto simp: Cons.IH Let_def split: prod.splits option.splits sum.splits)
  qed
qed

lemma runNodes_step_fail:
  assumes "\<not> isAborted ctx" and "find (\<lambda>n. node_id n = k) ns = Some n"
    and "executeNode env n (getNodeInputs (setCurrentNode ctx k) k es) = Inl err"
  shows "runNodes env ns es ctx (k # post) =
     (setNodeOutput (if abortDuring env k then abort (setCurrentNode ctx k) else setCurrentNode ctx k)
        k JNull (Some err) (recordTime env k),
      [OnNodeExecute k, OnNodeError k err], Some err)"
  using assms by (simp add: Let_def)

lemma runNodes_events:
  "runNodes env ns es ctx ks = (ctx', evs, res) \<Longrightarrow>
     (\<forall>outs. OnComplete outs \<notin> set evs) \<and> (\<forall>e. OnError e \<notin> set evs)
     \<and> set (executedNodes evs) \<subseteq> set ks
     \<and> (res = None \<longrightarrow> (\<forall>k e. OnNodeError k e \<notin> set evs))"
proof (induction ks arbitrary: ctx ctx' evs res)
  case Nil
  then show ?case by simp
next
  case (Cons k ks)
  show ?case
  proof (cases "isAborted ctx")
    case True
    with Cons.prems show ?thesis by simp
  next
    case na: False
    show ?thesis
    proof (cases "find (\<lambda>n. node_id n = k) ns")
      case None
      with na Cons.prems have "runNodes env ns es ctx ks = (ctx', evs, res)" by simp
      from Cons.IH[OF this] show ?thesis by auto
    next
      case (Some n)
      let ?c1 = "setCurrentNode ctx k"
      let ?c2 = "if abortDuring env k then abort ?c1 else ?c1"
      show ?thesis
      proof (cases "executeNode env n (getNodeInputs ?c1 k es)")
        case (Inl err)
        with na Some Cons.prems show ?thesis by (auto simp: Let_def)
      next
        case (Inr out)
        let ?c3 = "setNodeOutput ?c2 k out None (recordTime env k)"
        obtain c e r where rec: "runNodes env ns es ?c3 ks = (c, e, r)"
          by (cases "runNodes env ns es ?c3 ks") auto
        from na Some Inr rec Cons.prems
        have eq: "ctx' = c" "evs = [OnNodeExecute k, OnNodeComplete k out, OnProgress (getProgress ?c3)] @ e"
          "res = r"
          by (simp_all add: Let_def)
        from Cons.IH[OF rec] eq show ?thesis by auto
      qed
    qed
  qed
qed

lemma setNodeOutput_other:
  "j \<noteq> k \<Longrightarrow> getNodeOutput (setNodeOutput ctx k d err now) j = getNodeOutput ctx j"
  by (simp add: getNodeOutput_def setNodeOutput_def Let_def update_conv' split: option.splits)

lemma setNodeOutput_same:
  "getNodeOutput (setNodeOutput ctx k d err now) k
     = Some \<lparr> nodeId = k, data = d, timestamp = now, error = err \<rparr>"
  by (simp add: getNodeOutput_def setNodeOutput_def Let_def update_conv' split: option.splits)

lemma getNodeOutput_frame [simp]:
  "getNodeOutput (setCurrentNode ctx k) = getNodeOutput ctx"
  "getNodeOutput (abort ctx) = getNodeOutput ctx"
  by (simp_all add: getNodeOutput_def setCurrentNode_def abort_def fun_eq_iff)

lemma completed_frame [simp]:
  "completed (progress (setCurrentNode ctx k)) = completed (progress ctx)"
  "completed (progress (abort ctx)) = completed (progress ctx)"
  "completed (progress (setNodeOutput ctx k d (Some err) now)) = completed (progress ctx)"
  "completed (progress (setNodeOutput ctx k d None now)) = completed (progress ctx) @ [k]"
  by (simp_all add: setCurrentNode_def abort_def setNodeOutput_def Let_def)


lemma fold_nodeMap_Some:
  "fold (\<lambda>n m. m(node_id n \<mapsto> n)) ns m k = Some n \<Longrightarrow>
     (n \<in> set ns \<and> node_id n = k) \<or> m k = Some n"
  by (induction ns arbitrary: m) (fastforce split: if_splits)+

lemma buildNodeMap_Some:
  "buildNodeMap ns k = Some n \<Longrightarrow> n \<in> set ns \<and> node_id n = k"
  using fold_nodeMap_Some[of ns Map.empty k n] by (simp add: buildNodeMap_def)





subsection \<open>Validation failure\<close>

text \<open>
  C4. On an executor that is not already running, for every node and edge input that the
  validator rejects (its result is not \<open>valid\<close>, which for \<open>validateGraph\<close> is a non-empty
  error list), \<open>execute\<close> invokes \<open>onError\<close> with the error that aggregates the validation
  errors (twice: once where validation fails and once in the outer \<open>catch\<close>), rejects with
  that error, and invokes \<open>onNodeExecute\<close> for no node.
\<close>

theorem execute_validation_failure:
  assumes "\<not> isExecuting ex" and "\<not> valid (validate env ns es)"
  shows "execute env ex ns es =
           (ex, Inl (validationFailure (errors (validate env ns es))),
            [OnError (validationFailure (errors (validate env ns es))),
             OnError (validationFailure (errors (validate env ns es)))])
         \<and> executedNodes (snd (snd (execute env ex ns es))) = []"
  using assms by (simp add: execute_def Let_def validationFailure_def)

theorem execute_validation_failure_witness:
  "execute plainEnv idleExecutor [mkNode ''A'', mkNode ''B''] [mkEdge ''A'' ''B'', mkEdge ''B'' ''A'']
     = (idleExecutor,
        Inl (Error ''Graph validation failed: ValidationError: Graph contains cycles''),
        [OnError (Error ''Graph validation failed: ValidationError: Graph contains cycles''),
         OnError (Error ''Graph validation failed: ValidationError: Graph contains cycles'')])"
proof -
  let ?ns = "[mkNode ''A'', mkNode ''B'']"
  let ?es = "[mkEdge ''A'' ''B'', mkEdge ''B'' ''A'']"
  have v: "validate plainEnv ?ns ?es
      = \<lparr> valid = False, errors = [GRAPH_CYCLE_DETECTED (Some [''A'', ''B'', ''A''])],
          warnings = [NoSourceNodes] \<rparr>"
    by (simp add: sample_defs validator_defs)
  have h1: "\<not> isExecuting idleExecutor" by (simp add: idleExecutor_def)
  have h2: "\<not> valid (validate plainEnv ?ns ?es)" by (simp add: v)
  from execute_validation_failure[OF h1 h2] show ?thesis
    by (simp add: v validationFailure_def joinWith_def errorToString_def)
qed

subsection \<open>Node failure\<close>

text \<open>
  C3. Consider a pass on a validated graph that reaches node \<open>k\<close> of the execution order
  (the nodes before it ran without failure and without abort) and whose dispatch of \<open>k\<close>
  fails with \<open>err\<close>. Then the executor records \<open>err\<close> for \<open>k\<close> in the context, invokes
  \<open>onNodeError k err\<close> and then \<open>onError err\<close> as its last two callbacks, rejects with
  \<open>err\<close>, starts no node after \<open>k\<close> (the callbacks are those of the nodes before \<open>k\<close>,
  followed by those of \<open>k\<close>), never invokes \<open>onComplete\<close>, and leaves the recorded
  outputs of all other nodes and the \<open>completed\<close> list as they were before the failure.
\<close>

theorem execute_node_failure:
  assumes idle: "\<not> isExecuting ex"
    and ok: "valid (validate env ns es)"
    and ord: "getExecutionOrder (topologicalSort ns es) = pre @ k # post"
    and reach: "runNodes env ns es (newExecutionContext ns (pre @ k # post)) pre = (ctx1, evs1, None)"
    and na: "\<not> isAborted ctx1"
    and node: "find (\<lambda>n. node_id n = k) ns = Some n"
    and fails: "executeNode env n (getNodeInputs (setCurrentNode ctx1 k) k es) = Inl err"
  shows "\<exists>ctx'. execute env ex ns es =
            (\<lparr> exec_context = Some ctx', isExecuting = False \<rparr>, Inl err,
             evs1 @ [OnNodeExecute k, OnNodeError k err, OnError err])
          \<and> getNodeOutput ctx' k
              = Some \<lparr> nodeId = k, data = JNull, timestamp = recordTime env k, error = Some err \<rparr>
          \<and> (\<forall>j. j \<noteq> k \<longrightarrow> getNodeOutput ctx' j = getNodeOutput ctx1 j)
          \<and> completed (progress ctx') = completed (progress ctx1)
          \<and> executedNodes (evs1 @ [OnNodeExecute k, OnNodeError k err, OnError err])
              = executedNodes evs1 @ [k]
          \<and> set (executedNodes evs1) \<subseteq> set pre
          \<and> (\<forall>outs. OnComplete outs \<notin> set (evs1 @ [OnNodeExecute k, OnNodeError k err, OnError err]))"
proof -
  let ?c1 = "setCurrentNode ctx1 k"
  let ?c2 = "if abortDuring env k then abort ?c1 else ?c1"
  let ?ctx' = "setNodeOutput ?c2 k JNull (Some err) (recordTime env k)"
  let ?ord = "pre @ k # post"
  have step: "runNodes env ns es ctx1 (k # post) = (?ctx', [OnNodeExecute k, OnNodeError k err], Some err)"
    using na node fails by (rule runNodes_step_fail)
  have run: "runNodes env ns es (newExecutionContext ns ?ord) ?ord
      = (?ctx', evs1 @ [OnNodeExecute k, OnNodeError k err], Some err)"
    by (simp only: runNodes_append[of env ns es _ pre "k # post"] reach step prod.case option.case)
  have ex: "execute env ex ns es =
      (\<lparr> exec_context = Some ?ctx', isExecuting = False \<rparr>, Inl err,
       evs1 @ [OnNodeExecute k, OnNodeError k err, OnError err])"
    using idle ok by (simp add: execute_def Let_def ord run)
  have ev: "(\<forall>outs. OnComplete outs \<notin> set evs1) \<and> set (executedNodes evs1) \<subseteq> set pre"
    using runNodes_events[OF reach] by simp
  have en: "executedNodes (evs1 @ xs) = executedNodes evs1 @ executedNodes xs" for xs
    by (induction evs1 rule: executedNodes.induct) simp_all
  have o1: "getNodeOutput ?ctx' k
      = Some \<lparr> nodeId = k, data = JNull, timestamp = recordTime env k, error = Some err \<rparr>"
    by (rule setNodeOutput_same)
  have o2: "\<forall>j. j \<noteq> k \<longrightarrow> getNodeOutput ?ctx' j = getNodeOutput ctx1 j"
    by (simp add: setNodeOutput_other)
  have o3: "completed (progress ?ctx') = completed (progress ctx1)" by simp
  show ?thesis
    using ex o1 o2 o3 ev by (intro exI[of _ ?ctx']) (simp add: en)
qed

theorem execute_node_failure_witness:
  "\<exists>ctx'. execute boomEnv idleExecutor [mkNode ''A''] [] =
      (\<lparr> exec_context = Some ctx', isExecuting = False \<rparr>,
       Inl (Error (''Handler execution failed for node type '' @ [CHR 0x22] @ ''task''
                   @ [CHR 0x22] @ '': boom'')),
       [OnNodeExecute ''A'',
        OnNodeError ''A'' (Error (''Handler execution failed for node type '' @ [CHR 0x22]
                                  @ ''task'' @ [CHR 0x22] @ '': boom'')),
        OnError (Error (''Handler execution failed for node type '' @ [CHR 0x22] @ ''task''
                        @ [CHR 0x22] @ '': boom''))])
    \<and> map_option error (getNodeOutput ctx' ''A'')
        = Some (Some (Error (''Handler execution failed for node type '' @ [CHR 0x22] @ ''task''
                   @ [CHR 0x22] @ '': boom'')))"
proof -
  let ?ns = "[mkNode ''A'']"
  let ?err = "Error (''Handler execution failed for node type '' @ [CHR 0x22] @ ''task''
                   @ [CHR 0x22] @ '': boom'')"
  have h1: "\<not> isExecuting idleExecutor" by (simp add: idleExecutor_def)
  have h2: "valid (validate boomEnv ?ns [])"
    by (simp add: sample_defs validator_defs)
  have h3: "getExecutionOrder (topologicalSort ?ns []) = [] @ ''A'' # []"
    by (simp add: sample_defs sort_defs)
  have h4: "runNodes boomEnv ?ns [] (newExecutionContext ?ns ([] @ ''A'' # [])) []
      = (newExecutionContext ?ns [''A''], [], None)" by simp
  have h5: "\<not> isAborted (newExecutionContext ?ns [''A''])"
    by (simp add: context_defs)
  have h6: "find (\<lambda>n. node_id n = ''A'') ?ns = Some (mkNode ''A'')"
    by (simp add: sample_defs)
  have h7: "executeNode boomEnv (mkNode ''A'')
      (getNodeInputs (setCurrentNode (newExecutionContext ?ns [''A'']) ''A'') ''A'' []) = Inl ?err"
    by (simp add: sample_defs executor_defs context_defs)
  from execute_node_failure[OF h1 h2 h3 h4 h5 h6 h7] show ?thesis
    by auto
qed

subsection \<open>Abort\<close>

text \<open>
  C5. Consider a pass on a validated graph in which \<open>abort()\<close> has been called by the time
  the nodes \<open>pre\<close> of the execution order \<open>pre @ post\<close> have been processed (the context's
  \<open>aborted\<close> flag is set) and no dispatch has failed. Then no node of \<open>post\<close> starts: the
  loop stops at the \<open>isAborted()\<close> check, the callbacks are exactly those of \<open>pre\<close>
  followed by \<open>onComplete\<close> with the outputs recorded so far, and neither \<open>onNodeError\<close>
  nor \<open>onError\<close> is invoked.
\<close>

theorem execute_abort:
  assumes idle: "\<not> isExecuting ex"
    and ok: "valid (validate env ns es)"
    and ord: "getExecutionOrder (topologicalSort ns es) = pre @ post"
    and reach: "runNodes env ns es (newExecutionContext ns (pre @ post)) pre = (ctx1, evs1, None)"
    and ab: "isAborted ctx1"
  shows "execute env ex ns es =
           (\<lparr> exec_context = Some ctx1, isExecuting = False \<rparr>,
            Inr (collectOutputs (getAllOutputs ctx1)),
            evs1 @ [OnComplete (collectOutputs (getAllOutputs ctx1))])
         \<and> set (executedNodes (snd (snd (execute env ex ns es)))) \<subseteq> set pre
         \<and> (\<forall>k e. OnNodeError k e \<notin> set (snd (snd (execute env ex ns es))))
         \<and> (\<forall>e. OnError e \<notin> set (snd (snd (execute env ex ns es))))"
proof -
  have rest: "runNodes env ns es ctx1 post = (ctx1, [], None)"
    using ab by (rule runNodes_aborted)
  have run: "runNodes env ns es (newExecutionContext ns (pre @ post)) (pre @ post)
      = (ctx1, evs1, None)"
    by (simp only: runNodes_append[of env ns es _ pre post] reach rest prod.case option.case
        append_Nil2)
  have ex: "execute env ex ns es =
           (\<lparr> exec_context = Some ctx1, isExecuting = False \<rparr>,
            Inr (collectOutputs (getAllOutputs ctx1)),
            evs1 @ [OnComplete (collectOutputs (getAllOutputs ctx1))])"
    using idle ok by (simp add: execute_def Let_def ord run)
  have ev: "(\<forall>e. OnError e \<notin> set evs1) \<and> set (executedNodes evs1) \<subseteq> set pre
      \<and> (\<forall>k e. OnNodeError k e \<notin> set evs1)"
    using runNodes_events[OF reach] by simp
  show ?thesis using ev by (simp add: ex executedNodes_append)
qed

theorem execute_abort_witness:
  "fst (snd (execute abortEnv idleExecutor [mkNode ''A'', mkNode ''B'', mkNode ''C'']
               [mkEdge ''A'' ''B'', mkEdge ''B'' ''C''])) = Inr [(''A'', JStr ''x'')]
   \<and> snd (snd (execute abortEnv idleExecutor [mkNode ''A'', mkNode ''B'', mkNode ''C'']
               [mkEdge ''A'' ''B'', mkEdge ''B'' ''C'']))
     = [OnNodeExecute ''A'', OnNodeComplete ''A'' (JStr ''x''),
        OnProgress \<lparr> currentNodeId = ''A'', completed = [''A''], failed = [],
                     remaining = [''B'', ''C''], totalNodes = 3 \<rparr>,
        OnComplete [(''A'', JStr ''x'')]]"
proof -
  let ?ns = "[mkNode ''A'', mkNode ''B'', mkNode ''C'']"
  let ?es = "[mkEdge ''A'' ''B'', mkEdge ''B'' ''C'']"
  let ?ctx1 = "\<lparr> ctx_nodes = ?ns, executionOrder = [''A'', ''B'', ''C''],
      ctx_outputs = [(''A'', \<lparr> nodeId = ''A'', data = JStr ''x'', timestamp = 0, error = None \<rparr>)],
      progress = \<lparr> currentNodeId = ''A'', completed = [''A''], failed = [],
                     remaining = [''B'', ''C''], totalNodes = 3 \<rparr>,
      aborted = True \<rparr>"
  let ?evs1 = "[OnNodeExecute ''A'', OnNodeComplete ''A'' (JStr ''x''),
        OnProgress \<lparr> currentNodeId = ''A'', completed = [''A''], failed = [],
                     remaining = [''B'', ''C''], totalNodes = 3 \<rparr>]"
  have h1: "\<not> isExecuting idleExecutor" by (simp add: idleExecutor_def)
  have h2: "valid (validate abortEnv ?ns ?es)"
    by (simp add: sample_defs validator_defs)
  have h3: "getExecutionOrder (topologicalSort ?ns ?es) = [''A''] @ [''B'', ''C'']"
    by (simp add: sample_defs sort_defs)
  have h4: "runNodes abortEnv ?ns ?es (newExecutionContext ?ns ([''A''] @ [''B'', ''C''])) [''A'']
      = (?ctx1, ?evs1, None)"
    by (simp add: sample_defs executor_defs context_defs)
  have h5: "isAborted ?ctx1" by (simp add: isAborted_def)
  from execute_abort[OF h1 h2 h3 h4 h5] show ?thesis
    by (simp add: collectOutputs_def getAllOutputs_def)
qed

subsection \<open>Order of the callbacks\<close>




section \<open>Validation\<close>

subsection \<open>Port checks\<close>

text \<open>
  C9, as stated, fails: \<open>sourceNode.data?.outputs?.some(...)\<close> is \<open>undefined\<close> when the node
  declares no port metadata, \<open>!undefined\<close> is true, and the error is pushed. An edge with
  both handles between two nodes without port metadata gets both port errors.
\<close>

theorem port_check_without_metadata:
  "validateEdge portEdge portGraph
     = [EDGE_INVALID_SOURCE_PORT ''e1'' (Some ''out''), EDGE_INVALID_TARGET_PORT ''e1'' (Some ''in'')]"
  by (simp add: portEdge_def portGraph_def sample_defs validator_defs hasOutputPort_def hasInputPort_def)

text \<open>
  C9, amended. For every edge that specifies a source (target) port handle whose endpoint
  node is in the graph and declares no port metadata (no data, or no \<open>outputs\<close>
  (\<open>inputs\<close>) list in its data), validation makes the port check, finds no matching port
  and reports \<open>EDGE_INVALID_SOURCE_PORT\<close> (\<open>EDGE_INVALID_TARGET_PORT\<close>) for that edge.
  No port error is reported for a handle that is absent or empty.
\<close>

theorem validateEdge_port_errors:
  "(truthy (sourceHandle e) \<longrightarrow> find (\<lambda>n. node_id n = source e) (nodes g) = Some sn \<longrightarrow>
      (node_data sn = None \<or> (\<exists>d. node_data sn = Some d \<and> outputs d = None)) \<longrightarrow>
      EDGE_INVALID_SOURCE_PORT (edge_id e) (sourceHandle e) \<in> set (validateEdge e g))
   \<and> (truthy (targetHandle e) \<longrightarrow> find (\<lambda>n. node_id n = target e) (nodes g) = Some tn \<longrightarrow>
      (node_data tn = None \<or> (\<exists>d. node_data tn = Some d \<and> inputs d = None)) \<longrightarrow>
      EDGE_INVALID_TARGET_PORT (edge_id e) (targetHandle e) \<in> set (validateEdge e g))
   \<and> (\<not> truthy (sourceHandle e) \<longrightarrow>
        (\<forall>i h. EDGE_INVALID_SOURCE_PORT i h \<notin> set (validateEdge e g)))
   \<and> (\<not> truthy (targetHandle e) \<longrightarrow>
        (\<forall>i h. EDGE_INVALID_TARGET_PORT i h \<notin> set (validateEdge e g)))"
  by (auto simp: validateEdge_def Let_def hasOutputPort_def hasInputPort_def somePort_def
      split: option.splits)

theorem validateEdge_port_errors_witness:
  "EDGE_INVALID_SOURCE_PORT ''e1'' (Some ''out'') \<in> set (validateEdge portEdge portGraph)
   \<and> EDGE_INVALID_TARGET_PORT ''e1'' (Some ''in'') \<in> set (validateEdge portEdge portGraph)
   \<and> (\<forall>i h. EDGE_INVALID_SOURCE_PORT i h \<notin> set (validateEdge (mkEdge ''A'' ''B'') portGraph))
   \<and> (\<forall>i h. EDGE_INVALID_TARGET_PORT i h \<notin> set (validateEdge (mkEdge ''A'' ''B'') portGraph))"
proof -
  have s: "truthy (sourceHandle portEdge)" "truthy (targetHandle portEdge)"
    by (simp_all add: portEdge_def truthy_def)
  have f: "find (\<lambda>n. node_id n = source portEdge) (nodes portGraph) = Some (mkNode ''A'')"
    "find (\<lambda>n. node_id n = target portEdge) (nodes portGraph) = Some (mkNode ''B'')"
    by (simp_all add: portEdge_def portGraph_def mkNode_def)
  have d: "node_data (mkNode ''A'') = None" "node_data (mkNode ''B'') = None"
    by (simp_all add: mkNode_def)
  have n: "\<not> truthy (sourceHandle (mkEdge ''A'' ''B''))" "\<not> truthy (targetHandle (mkEdge ''A'' ''B''))"
    by (simp_all add: mkEdge_def truthy_def)
  from validateEdge_port_errors[of portEdge portGraph "mkNode ''A''" "mkNode ''B''"]
    validateEdge_port_errors[of "mkEdge ''A'' ''B''" portGraph]
  show ?thesis using s f d n by (simp add: portEdge_def)
qed

subsection \<open>The reported cycle path\<close>

text \<open>
  C8 on a graph whose cycle does not pass through the node where the search starts: the
  path carried by \<open>GRAPH_CYCLE_DETECTED\<close> is the whole search path from the start node,
  closed by the re-entered node, so its first id \<open>S\<close> differs from its last id \<open>A\<close>.
\<close>

theorem detectCycles_path_not_cycle:
  "detectCycles lassoGraph = \<lparr> hasCycle = True, cycle = Some [''S'', ''A'', ''B'', ''A''] \<rparr>
   \<and> validateGraph lassoGraph
       = \<lparr> valid = False, errors = [GRAPH_CYCLE_DETECTED (Some [''S'', ''A'', ''B'', ''A''])],
           warnings = [] \<rparr>
   \<and> hd [''S'', ''A'', ''B'', ''A''] \<noteq> last [''S'', ''A'', ''B'', ''A'']"
  by (simp add: lassoGraph_def sample_defs validator_defs)

section \<open>Topological order\<close>

subsection \<open>The neighbour loop\<close>

lemma degreeOf_update:
  "degreeOf (AList.update k v d) w = (if w = k then v else degreeOf d w)"
  by (simp add: degreeOf_def update_conv')

lemma relax_eq:
  "relax lvl k (d, q) =
     (AList.update k (degreeOf d k - 1) d,
      if degreeOf d k = 1 then q @ [(k, lvl + 1)] else q)"
  by (simp add: relax_def Let_def)

lemma fold_relax:
  assumes "\<forall>v \<in> set ks. int (count_list ks v) \<le> degreeOf d v"
  shows "\<exists>d' L. fold (relax lvl) ks (d, q) = (d', q @ map (\<lambda>v. (v, lvl + 1)) L)
           \<and> (\<forall>v. degreeOf d' v = degreeOf d v - int (count_list ks v))
           \<and> distinct L
           \<and> set L = {v \<in> set ks. degreeOf d v = int (count_list ks v)}"
  using assms
proof (induction ks arbitrary: d q)
  case Nil
  show ?case by (intro exI[of _ d] exI[of _ "[]"]) simp
next
  case (Cons k ks)
  let ?d1 = "AList.update k (degreeOf d k - 1) d"
  let ?q1 = "if degreeOf d k = 1 then q @ [(k, lvl + 1)] else q"
  have dk: "int (count_list ks k) + 1 \<le> degreeOf d k"
    using Cons.prems by (auto dest: bspec[where x = k])
  have pre1: "\<forall>v \<in> set ks. int (count_list ks v) \<le> degreeOf ?d1 v"
  proof
    fix v assume v: "v \<in> set ks"
    show "int (count_list ks v) \<le> degreeOf ?d1 v"
    proof (cases "v = k")
      case True
      with dk show ?thesis by (simp add: degreeOf_update)
    next
      case False
      with Cons.prems v show ?thesis by (auto simp: degreeOf_update dest: bspec[where x = v])
    qed
  qed
  from Cons.IH[OF pre1, of ?q1] obtain d' L where
    f: "fold (relax lvl) ks (?d1, ?q1) = (d', ?q1 @ map (\<lambda>v. (v, lvl + 1)) L)"
    and dg: "\<forall>v. degreeOf d' v = degreeOf ?d1 v - int (count_list ks v)"
    and dl: "distinct L"
    and sl: "set L = {v \<in> set ks. degreeOf ?d1 v = int (count_list ks v)}"
    by blast
  have deg': "\<forall>v. degreeOf d' v = degreeOf d v - int (count_list (k # ks) v)"
    using dg by (auto simp: degreeOf_update)
  show ?case
  proof (cases "degreeOf d k = 1")
    case True
    then have c0: "count_list ks k = 0" using dk by simp
    then have kn: "k \<notin> set ks" by (simp add: count_list_0_iff)
    then have knl: "k \<notin> set L" using sl by auto
    have "fold (relax lvl) (k # ks) (d, q) = (d', q @ map (\<lambda>v. (v, lvl + 1)) (k # L))"
      using f True by (simp add: relax_eq)
    moreover have "distinct (k # L)" using dl knl by simp
    moreover have "set (k # L) = {v \<in> set (k # ks). degreeOf d v = int (count_list (k # ks) v)}"
      using sl True c0 kn by (auto simp: degreeOf_update)
    ultimately show ?thesis using deg' by blast
  next
    case False
    have "fold (relax lvl) (k # ks) (d, q) = (d', q @ map (\<lambda>v. (v, lvl + 1)) L)"
      using f False by (simp add: relax_eq)
    moreover have "set L = {v \<in> set (k # ks). degreeOf d v = int (count_list (k # ks) v)}"
    proof -
      have "k \<notin> set ks \<Longrightarrow> degreeOf d k \<noteq> int (count_list (k # ks) k)"
        using False by (simp add: count_list_0_iff)
      then show ?thesis using sl by (auto simp: degreeOf_update)
    qed
    ultimately show ?thesis using deg' dl by blast
  qed
qed

lemma count_list_targets:
  "count_list (map target (filter (\<lambda>e. source e = c) es)) v
     = length (filter (\<lambda>e. target e = v \<and> source e = c) es)"
  by (induction es) auto

lemma inEdges_insert:
  "c \<notin> D \<Longrightarrow>
     inEdges es D v = inEdges es (insert c D) v
                      + length (filter (\<lambda>e. target e = v \<and> source e = c) es)"
  unfolding inEdges_def by (induction es) auto

lemma position_append_in: "x \<in> set xs \<Longrightarrow> position (xs @ ys) x = position xs x"
  unfolding position_def by (induction xs) auto

lemma position_append_new: "x \<notin> set xs \<Longrightarrow> position (xs @ [x]) x = length xs"
  unfolding position_def by (induction xs) auto

lemma position_less: "x \<in> set xs \<Longrightarrow> position xs x < length xs"
  unfolding position_def by (induction xs) auto

lemma position_nth: "x \<in> set xs \<Longrightarrow> xs ! position xs x = x"
  unfolding position_def by (induction xs) auto

lemma kahnInv_step:
  assumes inv: "kahnInv ns es d ((c, l) # q) r"
    and tg: "target ` set es \<subseteq> nodeIds ns"
    and nm: "n \<in> set ns" "node_id n = c"
    and st: "fold (relax l) (map target (filter (\<lambda>e. source e = c) es)) (d, q) = (d', q')"
  shows "kahnInv ns es d' q' (r @ [\<lparr> node = n, level = l \<rparr>])"
proof -
  let ?D = "set (resultIds r)"
  let ?nb = "map target (filter (\<lambda>e. source e = c) es)"
  let ?r' = "r @ [\<lparr> node = n, level = l \<rparr>]"
  from inv have dist: "distinct (resultIds r @ c # map fst q)"
    and sub: "?D \<union> set (map fst q) \<subseteq> nodeIds ns" "c \<in> nodeIds ns"
    and deg: "\<And>v. degreeOf d v = int (inEdges es ?D v)"
    and zero: "\<And>v. v \<in> nodeIds ns \<Longrightarrow> (v \<in> ?D \<union> insert c (set (map fst q))) = (degreeOf d v = 0)"
    and topo: "\<And>e. e \<in> set es \<Longrightarrow> target e \<in> ?D \<Longrightarrow>
            source e \<in> ?D \<and> position (resultIds r) (source e) < position (resultIds r) (target e)"
    and rn: "\<And>sn. sn \<in> set r \<Longrightarrow> node sn \<in> set ns"
    by (auto simp: kahnInv_def)
  have cD: "c \<notin> ?D" and cq: "c \<notin> set (map fst q)" using dist by auto
  have ids': "resultIds ?r' = resultIds r @ [c]" by (simp add: resultIds_def nm)
  have split: "\<And>v. inEdges es ?D v = inEdges es (insert c ?D) v + count_list ?nb v"
    using inEdges_insert[OF cD] by (simp add: count_list_targets)
  have pre: "\<forall>v \<in> set ?nb. int (count_list ?nb v) \<le> degreeOf d v"
    using split by (simp add: deg)
  from fold_relax[OF pre, of l q] st obtain L where
    q': "q' = q @ map (\<lambda>v. (v, l + 1)) L"
    and deg': "\<And>v. degreeOf d' v = degreeOf d v - int (count_list ?nb v)"
    and dl: "distinct L"
    and sl: "set L = {v \<in> set ?nb. degreeOf d v = int (count_list ?nb v)}"
    by auto
  have mq: "map fst q' = map fst q @ L" by (simp add: q' comp_def)
  have nbids: "set ?nb \<subseteq> nodeIds ns" using tg by auto
  have Lids: "set L \<subseteq> nodeIds ns" using sl nbids by auto
  have Lpos: "\<And>v. v \<in> set L \<Longrightarrow> degreeOf d v \<noteq> 0"
    using sl by (auto simp: count_list_0_iff)
  have Lnew: "\<And>v. v \<in> set L \<Longrightarrow> v \<notin> ?D \<and> v \<noteq> c \<and> v \<notin> set (map fst q)"
  proof -
    fix v assume v: "v \<in> set L"
    then have "v \<in> nodeIds ns" using Lids by auto
    from zero[OF this] Lpos[OF v] show "v \<notin> ?D \<and> v \<noteq> c \<and> v \<notin> set (map fst q)" by auto
  qed
  have c1: "distinct (resultIds ?r' @ map fst q')"
    using dist dl Lnew by (auto simp: ids' mq)
  have c2: "set (resultIds ?r') \<union> set (map fst q') \<subseteq> nodeIds ns"
    using sub Lids by (auto simp: ids' mq)
  have c3: "\<forall>v. degreeOf d' v = int (inEdges es (set (resultIds ?r')) v)"
    using split by (simp add: deg' deg ids')
  have c4: "\<forall>v \<in> nodeIds ns. (v \<in> set (resultIds ?r') \<union> set (map fst q')) = (degreeOf d' v = 0)"
  proof
    fix v assume v: "v \<in> nodeIds ns"
    have ge: "int (count_list ?nb v) \<le> degreeOf d v" using split[of v] by (simp add: deg)
    show "(v \<in> set (resultIds ?r') \<union> set (map fst q')) = (degreeOf d' v = 0)"
    proof (cases "v \<in> set ?nb")
      case True
      then have pos: "count_list ?nb v \<noteq> 0" by (simp add: count_list_0_iff)
      then have "degreeOf d v \<noteq> 0" using ge by auto
      then have "v \<notin> ?D \<union> insert c (set (map fst q))" using zero[OF v] by simp
      moreover have "(v \<in> set L) = (degreeOf d' v = 0)" using sl True by (auto simp: deg')
      ultimately show ?thesis by (auto simp: ids' mq)
    next
      case False
      then have z: "count_list ?nb v = 0" by (simp add: count_list_0_iff)
      have "v \<notin> set L" using sl False by auto
      then show ?thesis using zero[OF v] z by (auto simp: ids' mq deg')
    qed
  qed
  have c5: "\<forall>e \<in> set es. target e \<in> set (resultIds ?r') \<longrightarrow>
            source e \<in> set (resultIds ?r')
            \<and> position (resultIds ?r') (source e) < position (resultIds ?r') (target e)"
  proof (intro ballI impI)
    fix e assume e: "e \<in> set es" and t: "target e \<in> set (resultIds ?r')"
    show "source e \<in> set (resultIds ?r')
            \<and> position (resultIds ?r') (source e) < position (resultIds ?r') (target e)"
    proof (cases "target e \<in> ?D")
      case True
      from topo[OF e True] show ?thesis
        by (simp add: ids' position_append_in True)
    next
      case False
      with t have tc: "target e = c" by (simp add: ids')
      have "degreeOf d c = 0" using zero[OF sub(2)] by simp
      then have "inEdges es ?D c = 0" using deg[of c] by simp
      then have "filter (\<lambda>e. target e = c \<and> source e \<notin> ?D) es = []"
        by (simp add: inEdges_def)
      then have sD: "source e \<in> ?D" using e tc by (auto simp: filter_empty_conv)
      then show ?thesis
        using cD by (simp add: ids' tc position_append_in position_append_new position_less)
    qed
  qed
  have c6: "\<forall>sn \<in> set ?r'. node sn \<in> set ns" using rn nm by auto
  show ?thesis
    unfolding kahnInv_def using c1 c2 c3 c4 c5 c6 by blast
qed

subsection \<open>What the maps hold when the loop starts\<close>

lemma fold_nodeMap_dom:
  "dom (fold (\<lambda>n m. m(node_id n \<mapsto> n)) ns m) = dom m \<union> nodeIds ns"
  by (induction ns arbitrary: m) (auto simp: nodeIds_def)

lemma buildNodeMap_dom: "dom (buildNodeMap ns) = nodeIds ns"
  by (simp add: buildNodeMap_def fold_nodeMap_dom)

lemma fold_initAdjacency:
  "fold (\<lambda>n m. m(node_id n \<mapsto> [])) ns m k
     = (if k \<in> nodeIds ns then Some [] else m k)"
  by (induction ns arbitrary: m) (auto simp: nodeIds_def)

lemma initAdjacency_eq: "initAdjacency ns k = (if k \<in> nodeIds ns then Some [] else None)"
  by (simp add: initAdjacency_def fold_initAdjacency)

lemma fold_addAdjacency:
  "fold addAdjacency es adj k =
     (case adj k of
        None \<Rightarrow> None
      | Some ts \<Rightarrow> Some (ts @ map target (filter (\<lambda>e. source e = k) es)))"
  by (induction es arbitrary: adj) (auto simp: addAdjacency_def split: option.splits)

lemma adjacency_eq:
  "fold addAdjacency es (initAdjacency ns) k =
     (if k \<in> nodeIds ns then Some (map target (filter (\<lambda>e. source e = k) es)) else None)"
  by (simp add: fold_addAdjacency initAdjacency_eq)

lemma fold_initInDegree_degree:
  "(\<forall>v. degreeOf d v = 0) \<Longrightarrow>
     degreeOf (fold (\<lambda>n d. AList.update (node_id n) 0 d) ns d) v = 0"
  by (induction ns arbitrary: d) (simp_all add: degreeOf_update)

lemma initInDegree_degree: "degreeOf (initInDegree ns) v = 0"
proof -
  have "\<forall>v. degreeOf [] v = 0" by (simp add: degreeOf_def)
  then show ?thesis unfolding initInDegree_def by (rule fold_initInDegree_degree)
qed

lemma fold_initInDegree_keys:
  "fst ` set (fold (\<lambda>n d. AList.update (node_id n) 0 d) ns d) = fst ` set d \<union> nodeIds ns"
  by (induction ns arbitrary: d) (auto simp: nodeIds_def dom_update)

lemma fold_initInDegree_distinct:
  "distinct (map fst d) \<Longrightarrow>
     distinct (map fst (fold (\<lambda>n d. AList.update (node_id n) 0 d) ns d))"
  by (induction ns arbitrary: d) (simp_all add: distinct_update)

lemma fold_addInDegree_degree:
  "degreeOf (fold addInDegree es d) v
     = degreeOf d v + int (length (filter (\<lambda>e. target e = v) es))"
  by (induction es arbitrary: d) (auto simp: addInDegree_def degreeOf_update)

lemma fold_addInDegree_keys:
  "fst ` set (fold addInDegree es d) = fst ` set d \<union> target ` set es"
  by (induction es arbitrary: d) (auto simp: addInDegree_def dom_update)

lemma fold_addInDegree_distinct:
  "distinct (map fst d) \<Longrightarrow> distinct (map fst (fold addInDegree es d))"
  by (induction es arbitrary: d) (simp_all add: addInDegree_def distinct_update)

lemma inDegree_entry:
  assumes "distinct (map fst d)" and "p \<in> set d"
  shows "snd p = degreeOf d (fst p)"
proof -
  have "map_of d (fst p) = Some (snd p)" using assms by (cases p) simp
  then show ?thesis by (simp add: degreeOf_def)
qed

lemma kahnInv_initial:
  assumes tg: "target ` set es \<subseteq> nodeIds ns"
  shows "kahnInv ns es (fold addInDegree es (initInDegree ns))
           (map (\<lambda>p. (fst p, 0)) (filter (\<lambda>p. snd p = 0) (fold addInDegree es (initInDegree ns))))
           []"
proof -
  let ?d = "fold addInDegree es (initInDegree ns)"
  let ?q = "map (\<lambda>p. (fst p, 0 :: nat)) (filter (\<lambda>p. snd p = 0) ?d)"
  have dk: "distinct (map fst ?d)"
    by (simp add: fold_addInDegree_distinct initInDegree_def fold_initInDegree_distinct)
  have keys: "fst ` set ?d = nodeIds ns"
    using tg by (auto simp: fold_addInDegree_keys initInDegree_def fold_initInDegree_keys)
  have mq: "map fst ?q = map fst (filter (\<lambda>p. snd p = 0) ?d)" by (simp add: comp_def)
  have c1: "distinct (map fst ?q)" unfolding mq using dk by (rule distinct_map_filter)
  have c2: "set (map fst ?q) \<subseteq> nodeIds ns" unfolding mq using keys by auto
  have c3: "\<forall>v. degreeOf ?d v = int (inEdges es {} v)"
    by (simp add: fold_addInDegree_degree initInDegree_degree inEdges_def)
  have c4: "\<forall>v \<in> nodeIds ns. (v \<in> set (map fst ?q)) = (degreeOf ?d v = 0)"
  proof
    fix v assume "v \<in> nodeIds ns"
    then have "v \<in> fst ` set ?d" using keys by simp
    then obtain p where p: "p \<in> set ?d" "fst p = v" by auto
    have "(v \<in> set (map fst ?q)) = (\<exists>p \<in> set ?d. snd p = 0 \<and> fst p = v)"
      unfolding mq by auto
    also have "\<dots> = (degreeOf ?d v = 0)"
      using p inDegree_entry[OF dk] by metis
    finally show "(v \<in> set (map fst ?q)) = (degreeOf ?d v = 0)" .
  qed
  show ?thesis
    unfolding kahnInv_def using c1 c2 c3 c4 by (simp add: resultIds_def)
qed

lemma kahn_keeps_inv:
  assumes tg: "target ` set es \<subseteq> nodeIds ns"
    and inv: "kahnInv ns es d q r"
  shows "\<exists>d'. kahnInv ns es d' []
           (kahn (buildNodeMap ns) (fold addAdjacency es (initAdjacency ns)) d q r)"
  using inv
proof (induction "buildNodeMap ns" "fold addAdjacency es (initAdjacency ns)" d q r
       rule: kahn.induct)
  case (1 d r)
  then show ?case by (auto simp: kahn.simps)
next
  case (2 d c l q r)
  let ?nb = "map target (filter (\<lambda>e. source e = c) es)"
  have cid: "c \<in> nodeIds ns" using "2.prems" by (simp add: kahnInv_def)
  then obtain n where n: "buildNodeMap ns c = Some n"
    using buildNodeMap_dom[of ns] by blast
  then have nn: "n \<in> set ns" "node_id n = c" by (auto dest: buildNodeMap_Some)
  have adj: "fold addAdjacency es (initAdjacency ns) c = Some ?nb"
    using cid by (simp add: adjacency_eq)
  obtain d' q' where st: "fold (relax l) ?nb (d, q) = (d', q')"
    by (cases "fold (relax l) ?nb (d, q)")
  have inv': "kahnInv ns es d' q' (r @ [\<lparr> node = n, level = l \<rparr>])"
    using "2.prems" tg nn st by (rule kahnInv_step)
  have "\<exists>d''. kahnInv ns es d'' []
      (kahn (buildNodeMap ns) (fold addAdjacency es (initAdjacency ns)) d' q'
         (r @ [\<lparr> node = n, level = l \<rparr>]))"
    using "2.hyps"[OF refl refl refl] inv' by (simp add: n adj st)
  then show ?case by (simp add: kahn.simps n adj st)
qed

lemma topologicalSort_inv:
  assumes "target ` set es \<subseteq> nodeIds ns"
  shows "\<exists>d'. kahnInv ns es d' [] (topologicalSort ns es)"
  unfolding topologicalSort_def Let_def
  using kahn_keeps_inv[OF assms kahnInv_initial[OF assms]] .

lemma finite_edgeRel: "finite (edgeRel es)"
  by (simp add: edgeRel_def)

lemma kahnInv_all_emitted:
  assumes inv: "kahnInv ns es d [] r"
    and src: "source ` set es \<subseteq> nodeIds ns"
    and ac: "acyclic (edgeRel es)"
  shows "set (resultIds r) = nodeIds ns"
proof (rule ccontr)
  let ?D = "set (resultIds r)"
  let ?S = "nodeIds ns - ?D"
  assume ne: "?D \<noteq> nodeIds ns"
  from inv have sub: "?D \<subseteq> nodeIds ns"
    and deg: "\<And>v. degreeOf d v = int (inEdges es ?D v)"
    and zero: "\<And>v. v \<in> nodeIds ns \<Longrightarrow> (v \<in> ?D) = (degreeOf d v = 0)"
    by (auto simp: kahnInv_def)
  from ne sub obtain x where x: "x \<in> ?S" by auto
  have "wf (edgeRel es)" using finite_edgeRel ac by (rule finite_acyclic_wf)
  from wfE_min[OF this x] obtain z where z: "z \<in> ?S"
    and zmin: "\<And>y. (y, z) \<in> edgeRel es \<Longrightarrow> y \<notin> ?S" by blast
  from z zero[of z] have "degreeOf d z \<noteq> 0" by simp
  then have "inEdges es ?D z \<noteq> 0" using deg[of z] by simp
  then have "filter (\<lambda>e. target e = z \<and> source e \<notin> ?D) es \<noteq> []"
    by (simp add: inEdges_def)
  then obtain e where e: "e \<in> set es" "target e = z" "source e \<notin> ?D"
    by (auto simp: filter_empty_conv)
  have "source e \<in> ?S" using e src by auto
  moreover have "(source e, z) \<in> edgeRel es" using e by (force simp: edgeRel_def)
  ultimately show False using zmin by blast
qed



text \<open>
  C1. For every acyclic graph (a node list with unique ids and an edge list whose endpoints
  are node ids), \<open>TopologicalSort.sort\<close> returns a sequence that contains every node
  exactly once, and for every edge the source appears strictly before the target in the
  returned order.
\<close>

theorem topologicalSort_acyclic:
  assumes uniq: "distinct (map node_id ns)"
    and ends: "\<forall>e \<in> set es. source e \<in> node_id ` set ns \<and> target e \<in> node_id ` set ns"
    and ac: "acyclic (edgeRel es)"
  shows "mset (map node (topologicalSort ns es)) = mset ns
       \<and> (\<forall>e \<in> set es. \<exists>i j. i < j \<and> j < length (topologicalSort ns es)
             \<and> getExecutionOrder (topologicalSort ns es) ! i = source e
             \<and> getExecutionOrder (topologicalSort ns es) ! j = target e)"
proof -
  let ?r = "topologicalSort ns es"
  let ?ord = "getExecutionOrder ?r"
  have tg: "target ` set es \<subseteq> nodeIds ns" and src: "source ` set es \<subseteq> nodeIds ns"
    using ends by (auto simp: nodeIds_def)
  from topologicalSort_inv[OF tg] obtain d where inv: "kahnInv ns es d [] ?r" by blast
  have ord: "?ord = resultIds ?r" by (simp add: getExecutionOrder_def resultIds_def)
  have all: "set ?ord = nodeIds ns"
    unfolding ord using inv src ac by (rule kahnInv_all_emitted)
  from inv have dist: "distinct ?ord"
    and topo: "\<And>e. e \<in> set es \<Longrightarrow> target e \<in> set ?ord \<Longrightarrow>
            source e \<in> set ?ord \<and> position ?ord (source e) < position ?ord (target e)"
    and rn: "\<And>sn. sn \<in> set ?r \<Longrightarrow> node sn \<in> set ns"
    by (auto simp: kahnInv_def ord)
  have dn: "distinct (map node ?r)"
  proof -
    have "distinct (map node_id (map node ?r))" using dist by (simp add: ord resultIds_def comp_def)
    then show ?thesis using distinct_map by blast
  qed
  have seteq: "set (map node ?r) = set ns"
  proof
    show "set (map node ?r) \<subseteq> set ns" using rn by auto
    show "set ns \<subseteq> set (map node ?r)"
    proof
      fix n assume n: "n \<in> set ns"
      then have "node_id n \<in> set ?ord" using all by (simp add: nodeIds_def)
      then obtain sn where sn: "sn \<in> set ?r" "node_id (node sn) = node_id n"
        by (auto simp: getExecutionOrder_def)
      have "node sn \<in> set ns" using rn sn(1) by simp
      then have "node sn = n"
        using uniq n sn(2) by (meson distinct_map inj_onD)
      then show "n \<in> set (map node ?r)" using sn(1) by force
    qed
  qed
  have dns: "distinct ns" using uniq by (simp add: distinct_map)
  have m: "mset (map node ?r) = mset ns"
    using set_eq_iff_mset_eq_distinct[OF dn dns] seteq by blast
  have len: "length ?ord = length ?r" by (simp add: getExecutionOrder_def)
  have "\<forall>e \<in> set es. \<exists>i j. i < j \<and> j < length ?r \<and> ?ord ! i = source e \<and> ?ord ! j = target e"
  proof
    fix e assume e: "e \<in> set es"
    then have t: "target e \<in> set ?ord" using all tg by auto
    from topo[OF e t] have s: "source e \<in> set ?ord"
      and lt: "position ?ord (source e) < position ?ord (target e)" by auto
    have "position ?ord (target e) < length ?r" using position_less[OF t] len by simp
    moreover have "?ord ! position ?ord (source e) = source e" using s by (rule position_nth)
    moreover have "?ord ! position ?ord (target e) = target e" using t by (rule position_nth)
    ultimately show "\<exists>i j. i < j \<and> j < length ?r \<and> ?ord ! i = source e \<and> ?ord ! j = target e"
      using lt by blast
  qed
  with m show ?thesis by blast
qed

theorem topologicalSort_acyclic_witness:
  "mset (map node (topologicalSort [mkNode ''C'', mkNode ''A'', mkNode ''B'']
                     [mkEdge ''A'' ''C'', mkEdge ''B'' ''C'']))
     = mset [mkNode ''C'', mkNode ''A'', mkNode ''B'']
   \<and> (\<exists>i j. i < j
          \<and> j < length (topologicalSort [mkNode ''C'', mkNode ''A'', mkNode ''B'']
                          [mkEdge ''A'' ''C'', mkEdge ''B'' ''C''])
          \<and> getExecutionOrder (topologicalSort [mkNode ''C'', mkNode ''A'', mkNode ''B'']
                                 [mkEdge ''A'' ''C'', mkEdge ''B'' ''C'']) ! i = ''A''
          \<and> getExecutionOrder (topologicalSort [mkNode ''C'', mkNode ''A'', mkNode ''B'']
                                 [mkEdge ''A'' ''C'', mkEdge ''B'' ''C'']) ! j = ''C'')
   \<and> (\<exists>i j. i < j
          \<and> j < length (topologicalSort [mkNode ''C'', mkNode ''A'', mkNode ''B'']
                          [mkEdge ''A'' ''C'', mkEdge ''B'' ''C''])
          \<and> getExecutionOrder (topologicalSort [mkNode ''C'', mkNode ''A'', mkNode ''B'']
                                 [mkEdge ''A'' ''C'', mkEdge ''B'' ''C'']) ! i = ''B''
          \<and> getExecutionOrder (topologicalSort [mkNode ''C'', mkNode ''A'', mkNode ''B'']
                                 [mkEdge ''A'' ''C'', mkEdge ''B'' ''C'']) ! j = ''C'')"
proof -
  let ?ns = "[mkNode ''C'', mkNode ''A'', mkNode ''B'']"
  let ?es = "[mkEdge ''A'' ''C'', mkEdge ''B'' ''C'']"
  have h1: "distinct (map node_id ?ns)" by (simp add: mkNode_def)
  have h2: "\<forall>e \<in> set ?es. source e \<in> node_id ` set ?ns \<and> target e \<in> node_id ` set ?ns"
    by (simp add: mkNode_def mkEdge_def)
  have h3: "acyclic (edgeRel ?es)"
    by (simp add: edgeRel_def mkEdge_def rtrancl_insert wf_acyclic)
  have s: "source (mkEdge ''A'' ''C'') = ''A''" "target (mkEdge ''A'' ''C'') = ''C''"
    "source (mkEdge ''B'' ''C'') = ''B''" "target (mkEdge ''B'' ''C'') = ''C''"
    by (simp_all add: mkEdge_def)
  from topologicalSort_acyclic[OF h1 h2 h3] show ?thesis
    by (simp add: s)
qed

section \<open>Cycles\<close>

subsection \<open>The engine's scheduler agrees with \<open>TopologicalSort.sort\<close>\<close>







subsection \<open>The depth-first search finds every cycle through a node\<close>










end
